theory Spec2Isabelle
  imports Complex_Main "HOL-Library.Word"
begin

section \<open>JavaScript values\<close>

text \<open>
  A JavaScript string is a sequence of UTF-16 code units; \<open>length\<close> counts code units,
  as \<open>String.prototype.length\<close> does.
\<close>

type_synonym jsstring = "16 word list"

text \<open>
  A JavaScript number: a finite value, \<open>NaN\<close>, or one of the two infinities. Finite
  values are kept as exact rationals (every double is one; the sign of zero is not kept).
  Comparisons of doubles are exact, and so are sums and differences of integers below
  \<open>2^53\<close>, which covers every offset, line and column of a text; the difference
  \<open>index - lineStart\<close> of \<open>getLocFromIndex\<close> is exact for every double \<open>index\<close> in
  range as well. Only a sum with a non-integer operand may round in JavaScript, and no
  theorem below is about such a sum.
\<close>

datatype number = Finite rat | NaN | PosInfinity | NegInfinity

definition num :: "int \<Rightarrow> number" where
  "num i = Finite (of_int i)"

text \<open>The relational operators \<open><\<close>, \<open>===\<close>, \<open><=\<close>, \<open>>\<close>, \<open>>=\<close> on numbers.\<close>

fun num_lt :: "number \<Rightarrow> number \<Rightarrow> bool" where
  "num_lt NaN _ = False"
| "num_lt _ NaN = False"
| "num_lt (Finite x) (Finite y) = (x < y)"
| "num_lt (Finite x) PosInfinity = True"
| "num_lt (Finite x) NegInfinity = False"
| "num_lt PosInfinity _ = False"
| "num_lt NegInfinity NegInfinity = False"
| "num_lt NegInfinity _ = True"

fun num_eq :: "number \<Rightarrow> number \<Rightarrow> bool" where
  "num_eq NaN _ = False"
| "num_eq _ NaN = False"
| "num_eq a b = (a = b)"

definition num_le :: "number \<Rightarrow> number \<Rightarrow> bool" where
  "num_le a b = (num_lt a b \<or> num_eq a b)"

definition num_gt :: "number \<Rightarrow> number \<Rightarrow> bool" where
  "num_gt a b = num_lt b a"

definition num_ge :: "number \<Rightarrow> number \<Rightarrow> bool" where
  "num_ge a b = num_le b a"

text \<open>The arithmetic operators \<open>+\<close> and \<open>-\<close> on numbers.\<close>

fun num_add :: "number \<Rightarrow> number \<Rightarrow> number" where
  "num_add NaN _ = NaN"
| "num_add _ NaN = NaN"
| "num_add (Finite x) (Finite y) = Finite (x + y)"
| "num_add PosInfinity NegInfinity = NaN"
| "num_add NegInfinity PosInfinity = NaN"
| "num_add PosInfinity _ = PosInfinity"
| "num_add NegInfinity _ = NegInfinity"
| "num_add (Finite x) b = b"

fun num_neg :: "number \<Rightarrow> number" where
  "num_neg (Finite x) = Finite (- x)"
| "num_neg NaN = NaN"
| "num_neg PosInfinity = NegInfinity"
| "num_neg NegInfinity = PosInfinity"

definition num_sub :: "number \<Rightarrow> number \<Rightarrow> number" where
  "num_sub a b = num_add a (num_neg b)"

text \<open>
  The values a caller can pass where the source tests \<open>typeof\<close>. An object is its list
  of own properties; reading a property that is absent gives \<open>undefined\<close>. Functions,
  symbols and big integers are left out: like strings and booleans, they are neither
  numbers nor objects with numeric properties.
\<close>

datatype jsvalue =
    JSUndefined
  | JSNull
  | JSBoolean bool
  | JSString jsstring
  | JSNumber number
  | JSObject "(string \<times> jsvalue) list"

fun typeof :: "jsvalue \<Rightarrow> string" where
  "typeof JSUndefined = ''undefined''"
| "typeof JSNull = ''object''"
| "typeof (JSBoolean b) = ''boolean''"
| "typeof (JSString s) = ''string''"
| "typeof (JSNumber n) = ''number''"
| "typeof (JSObject props) = ''object''"

definition property :: "(string \<times> jsvalue) list \<Rightarrow> string \<Rightarrow> jsvalue" where
  "property props key = (case map_of props key of None \<Rightarrow> JSUndefined | Some v \<Rightarrow> v)"

text \<open>
  \<open>array[n]\<close> for a number \<open>n\<close>: the element when \<open>n\<close> is an integer within the array,
  \<open>undefined\<close> (here \<open>None\<close>) otherwise, also for a negative or fractional \<open>n\<close> and
  for \<open>NaN\<close>. \<open>toNumber\<close> is the conversion an arithmetic or relational operator
  applies to such an element: \<open>undefined\<close> becomes \<open>NaN\<close>.
\<close>

fun array_get :: "'a list \<Rightarrow> number \<Rightarrow> 'a option" where
  "array_get xs (Finite q) =
     (if q = of_int \<lfloor>q\<rfloor> \<and> 0 \<le> q \<and> \<lfloor>q\<rfloor> < int (length xs)
      then Some (xs ! nat \<lfloor>q\<rfloor>) else None)"
| "array_get xs _ = None"

fun toNumber :: "nat option \<Rightarrow> number" where
  "toNumber None = NaN"
| "toNumber (Some n) = num (int n)"

text \<open>
  \<open>Array.prototype.findIndex\<close>: the index of the first element that satisfies the
  predicate, \<open>-1\<close> when there is none.
\<close>

primrec findIndex :: "('a \<Rightarrow> bool) \<Rightarrow> 'a list \<Rightarrow> int" where
  "findIndex p [] = - 1"
| "findIndex p (x # xs) =
     (if p x then 0 else (let r = findIndex p xs in if r < 0 then - 1 else r + 1))"

text \<open>
  \<open>String.prototype.slice(start, end)\<close>: a negative argument counts from the end of the
  string, both are clamped to the string, an absent \<open>end\<close> is the length, and the
  result is empty when the end is not after the start.
\<close>

definition String_slice :: "jsstring \<Rightarrow> int \<Rightarrow> int option \<Rightarrow> jsstring" where
  "String_slice s start end' =
     (let len = int (length s);
          from = (if start < 0 then max (len + start) 0 else min start len);
          to = (case end' of
                  None \<Rightarrow> len
                | Some e \<Rightarrow> if e < 0 then max (len + e) 0 else min e len)
      in take (nat (to - from)) (drop (nat from) s))"

text \<open>The two kinds of argument error of the query methods.\<close>

datatype error = TypeError | RangeError

section \<open>Data model\<close>

text \<open>
  A token or a comment of the parser: a type tag, the raw value and the half-open range
  \<open>[range[0], range[1])\<close> of offsets into the text. Espree's aliases \<open>start\<close> and
  \<open>end\<close> are \<open>range[0]\<close> and \<open>range[1]\<close>.
\<close>

record token =
  ttype :: string
  tvalue :: jsstring
  trange :: "int \<times> int"

definition tstart :: "token \<Rightarrow> int" where
  "tstart t = fst (trange t)"

definition tend :: "token \<Rightarrow> int" where
  "tend t = snd (trange t)"

text \<open>
  A node of the syntax tree: its type tag, its range, the \<open>parent\<close> back-reference
  (absent on the root), and its child fields by name, each an array whose entries are
  nodes or \<open>null\<close> (a single child is an array of one). The Program node also carries
  the parser's \<open>tokens\<close> and \<open>comments\<close> arrays; they are empty on every other node.
  The object graph of the source is cyclic (a child's \<open>parent\<close> is the node that holds
  it); a value of this type is the part a method reads: the parent chain upwards and
  the child fields downwards. Object identity (\<open>===\<close> on nodes, the keys of the caches)
  is equality of these values: two nodes of one tree differ in their range, their type
  or their parent chain.
\<close>

datatype node =
  Node (ntype: string) (nrange: "int \<times> int") (nparent: "node option")
       (nfields: "(string \<times> node option list) list")
       (ntokens: "token list") (ncomments: "token list")

definition nstart :: "node \<Rightarrow> int" where
  "nstart n = fst (nrange n)"

definition nend :: "node \<Rightarrow> int" where
  "nend n = snd (nrange n)"

definition field :: "node \<Rightarrow> string \<Rightarrow> node option list" where
  "field n key = (case map_of (nfields n) key of None \<Rightarrow> [] | Some xs \<Rightarrow> xs)"

text \<open>An argument that may be a node or a token (\<open>ASTNode|Token\<close>); both have a range.\<close>

datatype node_or_token = ANode node | AToken token

fun rangeOf :: "node_or_token \<Rightarrow> int \<times> int" where
  "rangeOf (ANode n) = nrange n"
| "rangeOf (AToken t) = trange t"

text \<open>
  A scope of the external scope analysis, as far as \<open>getScope\<close> reads it: its type and
  its child scopes. The scope manager is the resolver's \<open>acquire(node, inner)\<close> and its
  array \<open>scopes\<close>.
\<close>

datatype scope = Scope (stype: string) (childScopes: "scope list")

record scope_manager =
  acquire :: "node \<Rightarrow> bool \<Rightarrow> scope option"
  scopes :: "scope list"

text \<open>
  The object the constructor builds and freezes. The last five fields are the methods
  it inherits from \<open>TokenStore\<close>, with the options the source passes: \<open>includeComments\<close>
  as a flag and \<open>filter\<close> as a predicate.
\<close>

record source_code =
  hasBOM :: bool
  text' :: jsstring
  ast :: node
  scopeManager :: "scope_manager option"
  visitorKeys :: "string \<Rightarrow> string list"
  tokensAndComments :: "token list"
  lines :: "jsstring list"
  lineStartIndices :: "nat list"
  getTokens :: "node_or_token \<Rightarrow> bool \<Rightarrow> (token \<Rightarrow> bool) \<Rightarrow> token list"
  getTokenBefore :: "node_or_token \<Rightarrow> bool \<Rightarrow> token option"
  getTokenAfter :: "node_or_token \<Rightarrow> bool \<Rightarrow> token option"
  getFirstToken :: "node_or_token \<Rightarrow> token option"
  getLastToken :: "node_or_token \<Rightarrow> token option"

text \<open>
  The constructor's argument: the configuration object. The overload
  \<open>new SourceCode(text, ast)\<close> is the configuration with no scope manager and no
  visitor keys.
\<close>

record config =
  cfg_text :: jsstring
  cfg_ast :: node
  cfg_scopeManager :: "scope_manager option"
  cfg_visitorKeys :: "(string \<Rightarrow> string list) option"

section \<open>sortedMerge\<close>

text \<open>
  The \<open>while\<close> loop of \<open>sortedMerge\<close>, with its two indices and the result array as
  the loop state. In the first branch \<open>tokenIndex\<close> is in range (either by the second
  disjunct, or by the loop condition when the comments are used up); in the second
  branch \<open>commentIndex\<close> is in range, so no read of the source is out of bounds.
\<close>

function sortedMerge_loop ::
  "token list \<Rightarrow> token list \<Rightarrow> nat \<Rightarrow> nat \<Rightarrow> token list \<Rightarrow> token list" where
  "sortedMerge_loop tokens comments tokenIndex commentIndex result =
     (if tokenIndex < length tokens \<or> commentIndex < length comments then
        (if commentIndex \<ge> length comments \<or>
            (tokenIndex < length tokens \<and>
             fst (trange (tokens ! tokenIndex)) < fst (trange (comments ! commentIndex)))
         then sortedMerge_loop tokens comments (tokenIndex + 1) commentIndex
                (result @ [tokens ! tokenIndex])
         else sortedMerge_loop tokens comments tokenIndex (commentIndex + 1)
                (result @ [comments ! commentIndex]))
      else result)"
  by pat_completeness auto
termination
  by (relation "measure (\<lambda>(tokens, comments, ti, ci, result).
        (length tokens - ti) + (length comments - ci))") auto

definition sortedMerge :: "token list \<Rightarrow> token list \<Rightarrow> token list" where
  "sortedMerge tokens comments = sortedMerge_loop tokens comments 0 0 []"

section \<open>The collaborators of the constructor\<close>

text \<open>
  The inherited token-navigation primitive, \<open>TokenStore\<close> (\<open>./token-store\<close>), is not
  under src/. The spec describes it as adjacency queries over the merged stream: the
  token before or after a position, optionally including comments, the first and last
  token of a node, and the entries inside a node's range. The definitions below follow
  these words.
\<close>

text \<open>
  Modelled from the spec: the sequence a \<open>TokenStore\<close> query walks (\<open>./token-store\<close> is
  missing): the merged stream with \<open>includeComments\<close>, the tokens alone without.
\<close>

definition TokenStore_stream :: "token list \<Rightarrow> token list \<Rightarrow> bool \<Rightarrow> token list" where
  "TokenStore_stream tokens comments includeComments =
     (if includeComments then sortedMerge tokens comments else tokens)"

text \<open>An entry lies inside a range when it starts and ends within it.\<close>

definition insideRange :: "int \<times> int \<Rightarrow> token \<Rightarrow> bool" where
  "insideRange r t = (fst r \<le> fst (trange t) \<and> snd (trange t) \<le> snd r)"

text \<open>
  Modelled from the spec: \<open>TokenStore.getTokens(node, {includeComments, filter})\<close>
  (\<open>./token-store\<close> is missing): the entries inside the node's range that pass the
  filter, in stream order.
\<close>

definition TokenStore_getTokens ::
  "token list \<Rightarrow> token list \<Rightarrow> node_or_token \<Rightarrow> bool \<Rightarrow> (token \<Rightarrow> bool) \<Rightarrow> token list" where
  "TokenStore_getTokens tokens comments x includeComments flt =
     filter (\<lambda>t. insideRange (rangeOf x) t \<and> flt t)
       (TokenStore_stream tokens comments includeComments)"

text \<open>
  Modelled from the spec: \<open>TokenStore.getTokenBefore(x, {includeComments})\<close>
  (\<open>./token-store\<close> is missing): the last entry that ends at or before the start of
  \<open>x\<close>, \<open>null\<close> (here \<open>None\<close>) when there is none.
\<close>

definition TokenStore_getTokenBefore ::
  "token list \<Rightarrow> token list \<Rightarrow> node_or_token \<Rightarrow> bool \<Rightarrow> token option" where
  "TokenStore_getTokenBefore tokens comments x includeComments =
     List.find (\<lambda>t. snd (trange t) \<le> fst (rangeOf x))
       (rev (TokenStore_stream tokens comments includeComments))"

text \<open>
  Modelled from the spec: \<open>TokenStore.getTokenAfter(x, {includeComments})\<close>
  (\<open>./token-store\<close> is missing): the first entry that starts at or after the end of
  \<open>x\<close>, \<open>null\<close> when there is none.
\<close>

definition TokenStore_getTokenAfter ::
  "token list \<Rightarrow> token list \<Rightarrow> node_or_token \<Rightarrow> bool \<Rightarrow> token option" where
  "TokenStore_getTokenAfter tokens comments x includeComments =
     List.find (\<lambda>t. snd (rangeOf x) \<le> fst (trange t))
       (TokenStore_stream tokens comments includeComments)"

text \<open>
  Modelled from the spec: \<open>TokenStore.getFirstToken(x)\<close> and \<open>TokenStore.getLastToken(x)\<close>
  (\<open>./token-store\<close> is missing): the first and the last token inside the range of
  \<open>x\<close>, comments not counted; for a token of the stream, the token itself.
\<close>

definition TokenStore_getFirstToken ::
  "token list \<Rightarrow> token list \<Rightarrow> node_or_token \<Rightarrow> token option" where
  "TokenStore_getFirstToken tokens comments x =
     List.find (insideRange (rangeOf x)) tokens"

definition TokenStore_getLastToken ::
  "token list \<Rightarrow> token list \<Rightarrow> node_or_token \<Rightarrow> token option" where
  "TokenStore_getLastToken tokens comments x =
     List.find (insideRange (rangeOf x)) (rev tokens)"

text \<open>
  \<open>isCommentToken\<close> of the package \<open>@eslint-community/eslint-utils\<close>: the token's type
  is one of the three comment types.
\<close>

definition isCommentToken :: "token \<Rightarrow> bool" where
  "isCommentToken t = (ttype t = ''Line'' \<or> ttype t = ''Block'' \<or> ttype t = ''Shebang'')"

text \<open>
  Modelled from the spec: the characters of the line-break pattern of
  \<open>astUtils.createGlobalLinebreakMatcher\<close> (\<open>../shared/ast-utils\<close> is not under src/).
  The spec names the line-break sequences: CR, LF, CRLF and the line and paragraph
  separators U+2028 and U+2029.
\<close>

definition isLineTerminator :: "16 word \<Rightarrow> bool" where
  "isLineTerminator c = (c = 0x000A \<or> c = 0x000D \<or> c = 0x2028 \<or> c = 0x2029)"

text \<open>
  Modelled from the spec: one call of \<open>exec\<close> on the matcher that
  \<open>astUtils.createGlobalLinebreakMatcher\<close> returns (missing, as above), a global pattern:
  the leftmost match at or after \<open>lastIndex\<close>, as \<open>(match.index, match[0].length)\<close>, a
  CRLF pair being one match of length 2; \<open>None\<close> is \<open>null\<close>.
\<close>

function lineEndingPattern_exec :: "jsstring \<Rightarrow> nat \<Rightarrow> (nat \<times> nat) option" where
  "lineEndingPattern_exec s lastIndex =
     (if lastIndex \<ge> length s then None
      else if s ! lastIndex = 0x000D \<and> Suc lastIndex < length s \<and> s ! Suc lastIndex = 0x000A
        then Some (lastIndex, 2)
      else if isLineTerminator (s ! lastIndex) then Some (lastIndex, 1)
      else lineEndingPattern_exec s (Suc lastIndex))"
  by pat_completeness auto
termination
  by (relation "measure (\<lambda>(s, lastIndex). length s - lastIndex)") auto

text \<open>
  Modelled from the spec: \<open>astUtils.shebangPattern\<close> (not under src/), the shebang
  pattern found at the start of the text: \<open>#!\<close> followed by at least one character
  that is neither CR nor LF. The result is the capture \<open>match[1]\<close>, the run of such
  characters.
\<close>

definition shebangPattern_match :: "jsstring \<Rightarrow> jsstring option" where
  "shebangPattern_match s =
     (case s of
        a # b # rest \<Rightarrow>
          (let run = takeWhile (\<lambda>c. c \<noteq> 0x000D \<and> c \<noteq> 0x000A) rest
           in if a = 0x0023 \<and> b = 0x0021 \<and> run \<noteq> [] then Some run else None)
      | _ \<Rightarrow> None)"

section \<open>The constructor\<close>

declare lineEndingPattern_exec.simps [simp del]

lemma lineEndingPattern_exec_bounds:
  "lineEndingPattern_exec s i = Some (index, len) \<Longrightarrow>
     i \<le> index \<and> 1 \<le> len \<and> index + len \<le> length s"
proof (induction s i rule: lineEndingPattern_exec.induct)
  case (1 s lastIndex)
  from "1.prems" show ?case
    by (subst (asm) lineEndingPattern_exec.simps)
       (auto split: if_splits dest!: "1.IH"[rotated -1])
qed

text \<open>
  The loop that fills \<open>lines\<close> and \<open>lineStartIndices\<close>. Its state is the matcher's
  \<open>lastIndex\<close> and the two arrays; \<open>exec\<close> sets \<open>lastIndex\<close> to the end of the match.
  \<open>lineStartIndices[lineStartIndices.length - 1]\<close> is \<open>last\<close>: the array starts as
  \<open>[0]\<close> and only grows.
\<close>

function lines_loop ::
  "jsstring \<Rightarrow> nat \<Rightarrow> jsstring list \<Rightarrow> nat list \<Rightarrow> jsstring list \<times> nat list" where
  "lines_loop src lastIndex lns starts =
     (case lineEndingPattern_exec src lastIndex of
        None \<Rightarrow> (lns, starts)
      | Some (index, len) \<Rightarrow>
          lines_loop src (index + len)
            (lns @ [String_slice src (int (last starts)) (Some (int index))])
            (starts @ [index + len]))"
  by pat_completeness auto
termination
  by (relation "measure (\<lambda>(src, lastIndex, lns, starts). Suc (length src) - lastIndex)")
     (auto dest!: lineEndingPattern_exec_bounds)

declare lines_loop.simps [simp del]

text \<open>
  The shebang check: when the text starts with a shebang and the first comment's value
  is the capture, that comment's type becomes \<open>Shebang\<close>. The comment object is shared
  with \<open>ast.comments\<close>, so the tree the object keeps shows the new type.
\<close>

definition retagShebang :: "jsstring \<Rightarrow> token list \<Rightarrow> token list" where
  "retagShebang src comments =
     (case (shebangPattern_match src, comments) of
        (Some captured, c # cs) \<Rightarrow>
          (if tvalue c = captured then c\<lparr>ttype := ''Shebang''\<rparr> # cs else comments)
      | _ \<Rightarrow> comments)"

text \<open>
  \<open>new SourceCode(config)\<close>. \<open>validate\<close> cannot fail here: a \<open>node\<close> has its tokens,
  comments and range. \<open>Traverser.DEFAULT_VISITOR_KEYS\<close> is a table that is not under
  src/; it is the first parameter. The parser services, which no method reads, are
  left out, and so are the two caches, which start empty and are passed to the methods
  that use them.
\<close>

definition SourceCode :: "(string \<Rightarrow> string list) \<Rightarrow> config \<Rightarrow> source_code" where
  "SourceCode DEFAULT_VISITOR_KEYS textOrConfig =
     (let src = cfg_text textOrConfig;
          ast0 = cfg_ast textOrConfig;
          bom = (src \<noteq> [] \<and> hd src = 0xFEFF);
          this_text = (if bom then String_slice src 1 None else src);
          comments = retagShebang this_text (ncomments ast0);
          ast1 = Node (ntype ast0) (nrange ast0) (nparent ast0) (nfields ast0)
                   (ntokens ast0) comments;
          (lns, starts) = lines_loop this_text 0 [] [0];
          lns' = lns @ [String_slice this_text (int (last starts)) None]
      in \<lparr> hasBOM = bom,
           text' = this_text,
           ast = ast1,
           scopeManager = cfg_scopeManager textOrConfig,
           visitorKeys = (case cfg_visitorKeys textOrConfig of
                            None \<Rightarrow> DEFAULT_VISITOR_KEYS | Some keys \<Rightarrow> keys),
           tokensAndComments = sortedMerge (ntokens ast1) (ncomments ast1),
           lines = lns',
           lineStartIndices = starts,
           getTokens = TokenStore_getTokens (ntokens ast1) (ncomments ast1),
           getTokenBefore = TokenStore_getTokenBefore (ntokens ast1) (ncomments ast1),
           getTokenAfter = TokenStore_getTokenAfter (ntokens ast1) (ncomments ast1),
           getFirstToken = TokenStore_getFirstToken (ntokens ast1) (ncomments ast1),
           getLastToken = TokenStore_getLastToken (ntokens ast1) (ncomments ast1) \<rparr>)"

section \<open>The query methods on positions and text\<close>

text \<open>
  \<open>getText(node, beforeCount, afterCount)\<close>. An absent node is \<open>None\<close>; an absent count
  is \<open>None\<close>, and \<open>count || 0\<close> turns it into 0.
\<close>

definition orZero :: "int option \<Rightarrow> int" where
  "orZero count = (case count of None \<Rightarrow> 0 | Some c \<Rightarrow> c)"

definition getText :: "source_code \<Rightarrow> node option \<Rightarrow> int option \<Rightarrow> int option \<Rightarrow> jsstring" where
  "getText this node beforeCount afterCount =
     (case node of
        Some n \<Rightarrow>
          String_slice (text' this)
            (max (fst (nrange n) - orZero beforeCount) 0)
            (Some (snd (nrange n) + orZero afterCount))
      | None \<Rightarrow> text' this)"

text \<open>
  \<open>getLocFromIndex(index)\<close>. The result is the object \<open>{line, column}\<close>. Reading
  \<open>this.lines[this.lines.length - 1].length\<close> of an empty \<open>lines\<close> array would be a
  \<open>TypeError\<close> of the language; the constructor never leaves the array empty.
\<close>

definition getLocFromIndex :: "source_code \<Rightarrow> jsvalue \<Rightarrow> error + jsvalue" where
  "getLocFromIndex this index =
     (case index of
        JSNumber idx \<Rightarrow>
          if num_lt idx (num 0) \<or> num_gt idx (num (int (length (text' this))))
          then Inl RangeError
          else if num_eq idx (num (int (length (text' this)))) then
            (case lines this of
               [] \<Rightarrow> Inl TypeError
             | _ \<Rightarrow>
                 Inr (JSObject
                   [(''line'', JSNumber (num (int (length (lines this))))),
                    (''column'', JSNumber (num (int (length (last (lines this))))))]))
          else
            (let lineNumber =
                   (if num_ge idx
                         (toNumber (array_get (lineStartIndices this)
                            (num (int (length (lineStartIndices this)) - 1))))
                    then int (length (lineStartIndices this))
                    else findIndex (\<lambda>el. num_lt idx (num (int el))) (lineStartIndices this))
             in Inr (JSObject
                   [(''line'', JSNumber (num lineNumber)),
                    (''column'', JSNumber (num_sub idx
                       (toNumber (array_get (lineStartIndices this) (num (lineNumber - 1))))))]))
      | _ \<Rightarrow> Inl TypeError)"

text \<open>
  \<open>getIndexFromLoc(loc)\<close>. The first test of the source also fails, with a \<open>TypeError\<close>
  of the language, on \<open>null\<close>, whose \<open>typeof\<close> is \<open>object\<close> but which has no
  properties to read.
\<close>

definition getIndexFromLoc :: "source_code \<Rightarrow> jsvalue \<Rightarrow> error + number" where
  "getIndexFromLoc this loc =
     (case loc of
        JSObject props \<Rightarrow>
          (case (property props ''line'', property props ''column'') of
             (JSNumber line, JSNumber column) \<Rightarrow>
               if num_le line (num 0) then Inl RangeError
               else if num_gt line (num (int (length (lineStartIndices this))))
               then Inl RangeError
               else
                 (let lineStartIndex =
                        toNumber (array_get (lineStartIndices this) (num_sub line (num 1)));
                      lineEndIndex =
                        (if num_eq line (num (int (length (lineStartIndices this))))
                         then num (int (length (text' this)))
                         else toNumber (array_get (lineStartIndices this) line));
                      positionIndex = num_add lineStartIndex column
                  in if (num_eq line (num (int (length (lineStartIndices this)))) \<and>
                           num_gt positionIndex lineEndIndex) \<or>
                        (num_lt line (num (int (length (lineStartIndices this)))) \<and>
                           num_ge positionIndex lineEndIndex)
                     then Inl RangeError
                     else Inr positionIndex)
           | _ \<Rightarrow> Inl TypeError)
      | _ \<Rightarrow> Inl TypeError)"

section \<open>Properties of sortedMerge\<close>

declare sortedMerge_loop.simps [simp del]

text \<open>The loop as a structural merge of the two remaining suffixes.\<close>

fun merge_lists :: "token list \<Rightarrow> token list \<Rightarrow> token list" where
  "merge_lists [] [] = []"
| "merge_lists (t # ts) [] = t # merge_lists ts []"
| "merge_lists [] (c # cs) = c # merge_lists [] cs"
| "merge_lists (t # ts) (c # cs) =
     (if fst (trange t) < fst (trange c) then t # merge_lists ts (c # cs)
      else c # merge_lists (t # ts) cs)"

lemma merge_lists_Nil_right: "merge_lists ts [] = ts"
  by (induction ts) auto

lemma merge_lists_Nil_left: "merge_lists [] cs = cs"
  by (induction cs) auto

lemma sortedMerge_loop_merge_lists:
  "sortedMerge_loop tokens comments ti ci result =
     result @ merge_lists (drop ti tokens) (drop ci comments)"
proof (induction tokens comments ti ci result rule: sortedMerge_loop.induct)
  case (1 tokens comments ti ci result)
  show ?case
  proof (cases "ti < length tokens")
    case tok: True
    then have dt: "drop ti tokens = tokens ! ti # drop (Suc ti) tokens"
      by (simp add: Cons_nth_drop_Suc)
    show ?thesis
    proof (cases "ci < length comments")
      case com: True
      then have dc: "drop ci comments = comments ! ci # drop (Suc ci) comments"
        by (simp add: Cons_nth_drop_Suc)
      show ?thesis
      proof (cases "fst (trange (tokens ! ti)) < fst (trange (comments ! ci))")
        case True
        with tok com "1.IH"(1) show ?thesis
          by (subst sortedMerge_loop.simps) (simp add: dt dc del: drop_Suc)
      next
        case False
        with tok com "1.IH"(2) show ?thesis
          by (subst sortedMerge_loop.simps) (simp add: dt dc del: drop_Suc)
      qed
    next
      case com: False
      with tok "1.IH"(1) show ?thesis
        by (subst sortedMerge_loop.simps) (simp add: dt merge_lists_Nil_right del: drop_Suc)
    qed
  next
    case tok: False
    show ?thesis
    proof (cases "ci < length comments")
      case com: True
      then have dc: "drop ci comments = comments ! ci # drop (Suc ci) comments"
        by (simp add: Cons_nth_drop_Suc)
      from tok com "1.IH"(2) show ?thesis
        by (subst sortedMerge_loop.simps) (simp add: dc merge_lists_Nil_left del: drop_Suc)
    next
      case False
      with tok show ?thesis
        by (subst sortedMerge_loop.simps) simp
    qed
  qed
qed

lemma sortedMerge_merge_lists: "sortedMerge tokens comments = merge_lists tokens comments"
  by (simp add: sortedMerge_def sortedMerge_loop_merge_lists)

lemma merge_lists_filter_start:
  "sorted (map (\<lambda>c. fst (trange c)) cs) \<Longrightarrow>
   filter (\<lambda>x. fst (trange x) = s) (merge_lists ts cs) =
     filter (\<lambda>x. fst (trange x) = s) cs @ filter (\<lambda>x. fst (trange x) = s) ts"
proof (induction ts cs rule: merge_lists.induct)
  case (4 t ts c cs)
  show ?case
  proof (cases "fst (trange t) < fst (trange c)")
    case True
    have later: "filter (\<lambda>x. fst (trange x) = fst (trange t)) (c # cs) = []"
      using "4.prems" True by (auto simp: filter_empty_conv)
    from True "4.IH"(1) "4.prems" later show ?thesis
      by (cases "fst (trange t) = s") auto
  next
    case False
    with "4.IH"(2) "4.prems" show ?thesis by auto
  qed
qed (auto simp: merge_lists_Nil_left)

text \<open>
  C5, as the claim states it, fails: a token and a comment that start at the same offset
  leave the loop comment first, because the token is taken only when its start is
  strictly smaller.
\<close>

theorem C5_tie_counterexample:
  "sortedMerge
     [\<lparr>ttype = ''Punctuator'', tvalue = [], trange = (0, 0)\<rparr>]
     [\<lparr>ttype = ''Block'', tvalue = [0x63], trange = (0, 5)\<rparr>]
   = [\<lparr>ttype = ''Block'', tvalue = [0x63], trange = (0, 5)\<rparr>,
      \<lparr>ttype = ''Punctuator'', tvalue = [], trange = (0, 0)\<rparr>]"
  by (simp add: sortedMerge_merge_lists)

text \<open>
  C5 (amended): when the comments are sorted by start offset, the entries of the merged
  stream that start at any one offset \<open>s\<close> are the comments starting at \<open>s\<close>, in their
  order, followed by the tokens starting at \<open>s\<close>, in their order: on a tie every comment
  is placed before every token.
\<close>

theorem C5_ties_comment_first:
  assumes "sorted (map (\<lambda>c. fst (trange c)) comments)"
  shows "filter (\<lambda>x. fst (trange x) = s) (sortedMerge tokens comments) =
           filter (\<lambda>x. fst (trange x) = s) comments @
           filter (\<lambda>x. fst (trange x) = s) tokens"
  using assms by (simp add: sortedMerge_merge_lists merge_lists_filter_start)

theorem C5_ties_comment_first_witness:
  "sorted (map (\<lambda>c. fst (trange c))
     [\<lparr>ttype = ''Block'', tvalue = [0x63], trange = (0, 5)\<rparr>]) \<and>
   filter (\<lambda>x. fst (trange x) = 0)
     (sortedMerge
        [\<lparr>ttype = ''Punctuator'', tvalue = [], trange = (0, 0)\<rparr>,
         \<lparr>ttype = ''Identifier'', tvalue = [0x61], trange = (6, 7)\<rparr>]
        [\<lparr>ttype = ''Block'', tvalue = [0x63], trange = (0, 5)\<rparr>])
   = [\<lparr>ttype = ''Block'', tvalue = [0x63], trange = (0, 5)\<rparr>,
      \<lparr>ttype = ''Punctuator'', tvalue = [], trange = (0, 0)\<rparr>]"
  using C5_ties_comment_first
    [of "[\<lparr>ttype = ''Block'', tvalue = [0x63], trange = (0, 5)\<rparr>]" 0
        "[\<lparr>ttype = ''Punctuator'', tvalue = [], trange = (0, 0)\<rparr>,
          \<lparr>ttype = ''Identifier'', tvalue = [0x61], trange = (6, 7)\<rparr>]"]
  by simp

section \<open>Properties of the position indexer\<close>

subsection \<open>Arithmetic on integers, array reads and findIndex\<close>

lemma num_lt_num [simp]: "num_lt (num a) (num b) = (a < b)"
  by (simp add: num_def)
lemma num_eq_num [simp]: "num_eq (num a) (num b) = (a = b)"
  by (simp add: num_def)
lemma num_le_num [simp]: "num_le (num a) (num b) = (a \<le> b)"
  by (auto simp: num_le_def)
lemma num_gt_num [simp]: "num_gt (num a) (num b) = (b < a)"
  by (simp add: num_gt_def)
lemma num_ge_num [simp]: "num_ge (num a) (num b) = (b \<le> a)"
  by (simp add: num_ge_def)
lemma num_add_num [simp]: "num_add (num a) (num b) = num (a + b)"
  by (simp add: num_def)
lemma num_sub_num [simp]: "num_sub (num a) (num b) = num (a - b)"
  by (simp add: num_def num_sub_def)
lemma num_inject [simp]: "(num a = num b) = (a = b)"
  by (simp add: num_def)
lemma array_get_num [simp]:
  "array_get xs (num k) = (if 0 \<le> k \<and> k < int (length xs) then Some (xs ! nat k) else None)"
  by (simp add: num_def)

lemma findIndex_bounds: "- 1 \<le> findIndex p xs \<and> findIndex p xs < int (length xs)"
  by (induction xs) (auto simp: Let_def)

lemma findIndex_none: "(findIndex p xs < 0) = (\<forall>x\<in>set xs. \<not> p x)"
  using findIndex_bounds[of p] by (induction xs) (auto simp: Let_def)

lemma findIndex_found:
  "0 \<le> findIndex p xs \<Longrightarrow>
     p (xs ! nat (findIndex p xs)) \<and> (\<forall>j < nat (findIndex p xs). \<not> p (xs ! j))"
proof (induction xs)
  case Nil
  then show ?case by simp
next
  case (Cons x xs)
  show ?case
  proof (cases "p x")
    case True
    then show ?thesis by simp
  next
    case False
    with Cons.prems have nn: "0 \<le> findIndex p xs"
      by (auto simp: Let_def split: if_splits)
    from Cons.IH[OF nn] False nn show ?thesis
      by (auto simp: Let_def nat_add_distrib nth_Cons split: nat.splits)
  qed
qed

lemma String_slice_nat:
  "a \<le> length s \<Longrightarrow> String_slice s (int a) None = drop a s"
  by (simp add: String_slice_def Let_def)

lemma String_slice_nat2:
  "String_slice s (int a) (Some (int b)) = take (b - a) (drop a s)"
  by (cases "a \<le> length s"; cases "b \<le> length s")
     (auto simp: String_slice_def Let_def min_def nat_diff_distrib')

lemma lineEndingPattern_exec_None:
  "lineEndingPattern_exec s i = None \<Longrightarrow> i \<le> j \<Longrightarrow> j < length s \<Longrightarrow>
     \<not> isLineTerminator (s ! j)"
proof (induction s i rule: lineEndingPattern_exec.induct)
  case (1 s lastIndex)
  from "1.prems" have le: "lastIndex < length s" by simp
  from "1.prems"(1) le have here: "\<not> isLineTerminator (s ! lastIndex)"
    and rest: "lineEndingPattern_exec s (Suc lastIndex) = None"
    by (subst (asm) lineEndingPattern_exec.simps, auto simp: isLineTerminator_def split: if_splits)+
  show ?case
  proof (cases "j = lastIndex")
    case True
    with here show ?thesis by simp
  next
    case False
    with "1.prems" have "Suc lastIndex \<le> j" by simp
    with "1.IH" rest "1.prems" le here show ?thesis
      by (auto simp: isLineTerminator_def)
  qed
qed

lemma lineEndingPattern_exec_Some:
  "lineEndingPattern_exec s i = Some (index, len) \<Longrightarrow>
     isLineTerminator (s ! (index + len - 1)) \<and>
     (\<forall>j. i \<le> j \<and> j < index \<longrightarrow> \<not> isLineTerminator (s ! j))"
proof (induction s i rule: lineEndingPattern_exec.induct)
  case (1 s lastIndex)
  have unfold: "lineEndingPattern_exec s lastIndex =
     (if lastIndex \<ge> length s then None
      else if s ! lastIndex = 0x000D \<and> Suc lastIndex < length s \<and> s ! Suc lastIndex = 0x000A
        then Some (lastIndex, 2)
      else if isLineTerminator (s ! lastIndex) then Some (lastIndex, 1)
      else lineEndingPattern_exec s (Suc lastIndex))"
    by (rule lineEndingPattern_exec.simps)
  from "1.prems" unfold have inside: "\<not> lastIndex \<ge> length s"
    by (auto split: if_splits)
  show ?case
  proof (cases "s ! lastIndex = 0x000D \<and> Suc lastIndex < length s \<and> s ! Suc lastIndex = 0x000A")
    case True
    with "1.prems" unfold inside have "index = lastIndex" "len = 2" by auto
    with True show ?thesis by (auto simp: isLineTerminator_def)
  next
    case crlf: False
    show ?thesis
    proof (cases "isLineTerminator (s ! lastIndex)")
      case True
      with "1.prems" unfold inside crlf have "index = lastIndex" "len = 1" by auto
      with True show ?thesis by auto
    next
      case False
      with "1.prems" unfold inside crlf
      have r: "lineEndingPattern_exec s (Suc lastIndex) = Some (index, len)" by auto
      from "1.IH"[OF inside crlf False r]
      have ih1: "isLineTerminator (s ! (index + len - 1))"
        and ih2: "\<And>j. Suc lastIndex \<le> j \<Longrightarrow> j < index \<Longrightarrow> \<not> isLineTerminator (s ! j)"
        by auto
      have "\<not> isLineTerminator (s ! j)" if "lastIndex \<le> j" "j < index" for j
      proof (cases "j = lastIndex")
        case True
        with False show ?thesis by simp
      next
        case neq: False
        with that have "Suc lastIndex \<le> j" by simp
        with ih2 that show ?thesis by simp
      qed
      with ih1 show ?thesis by simp
    qed
  qed
qed

subsection \<open>What the constructor leaves in lines and lineStartIndices\<close>

lemma lines_loop_inv:
  assumes "lines_loop src i lns starts = (L, S)"
    and "starts \<noteq> []" and "last starts = i" and "i \<le> length src"
    and "length starts = Suc (length lns)" and "hd starts = 0"
    and "i = 0 \<or> isLineTerminator (src ! (i - 1))"
  shows "S \<noteq> [] \<and> hd S = 0 \<and> last S \<le> length src \<and> length S = Suc (length L) \<and>
         lineEndingPattern_exec src (last S) = None \<and>
         (last S = 0 \<or> isLineTerminator (src ! (last S - 1)))"
  using assms
proof (induction src i lns starts arbitrary: L S rule: lines_loop.induct)
  case (1 src lastIndex lns starts)
  show ?case
  proof (cases "lineEndingPattern_exec src lastIndex")
    case None
    with "1.prems"(1) have "L = lns" "S = starts" by (simp_all add: lines_loop.simps)
    with None "1.prems" show ?thesis by simp
  next
    case (Some m)
    obtain index len where m: "m = (index, len)" by (cases m)
    from Some m have ex: "lineEndingPattern_exec src lastIndex = Some (index, len)" by simp
    from lineEndingPattern_exec_bounds[OF ex]
    have b: "lastIndex \<le> index" "1 \<le> len" "index + len \<le> length src" by auto
    from lineEndingPattern_exec_Some[OF ex]
    have t: "isLineTerminator (src ! (index + len - 1))" by simp
    from ex "1.prems"(1)
    have r: "lines_loop src (index + len)
               (lns @ [String_slice src (int (last starts)) (Some (int index))])
               (starts @ [index + len]) = (L, S)"
      by (simp add: lines_loop.simps)
    show ?thesis
      by (rule "1.IH"[OF ex refl r]) (use "1.prems" b t in auto)
  qed
qed

lemma SourceCode_position_fields:
  "lineStartIndices (SourceCode dvk cfg) \<noteq> [] \<and>
   hd (lineStartIndices (SourceCode dvk cfg)) = 0 \<and>
   last (lineStartIndices (SourceCode dvk cfg)) \<le> length (text' (SourceCode dvk cfg)) \<and>
   length (lines (SourceCode dvk cfg)) = length (lineStartIndices (SourceCode dvk cfg)) \<and>
   last (lines (SourceCode dvk cfg)) =
     drop (last (lineStartIndices (SourceCode dvk cfg))) (text' (SourceCode dvk cfg)) \<and>
   lineEndingPattern_exec (text' (SourceCode dvk cfg))
     (last (lineStartIndices (SourceCode dvk cfg))) = None \<and>
   (last (lineStartIndices (SourceCode dvk cfg)) = 0 \<or>
    isLineTerminator (text' (SourceCode dvk cfg) !
      (last (lineStartIndices (SourceCode dvk cfg)) - 1)))"
proof -
  define src where "src = text' (SourceCode dvk cfg)"
  obtain L S where ls: "lines_loop src 0 [] [0] = (L, S)"
    by (cases "lines_loop src 0 [] [0]")
  have src: "src = (if cfg_text cfg \<noteq> [] \<and> hd (cfg_text cfg) = 0xFEFF
                    then String_slice (cfg_text cfg) 1 None else cfg_text cfg)"
    by (simp add: src_def SourceCode_def Let_def split: prod.splits)
  from ls src have f1: "lineStartIndices (SourceCode dvk cfg) = S"
    by (simp add: SourceCode_def Let_def split: prod.splits)
  from ls src have f2: "lines (SourceCode dvk cfg) = L @ [String_slice src (int (last S)) None]"
    by (simp add: SourceCode_def Let_def split: prod.splits)
  from lines_loop_inv[OF ls]
  have inv: "S \<noteq> []" "hd S = 0" "last S \<le> length src" "length S = Suc (length L)"
    "lineEndingPattern_exec src (last S) = None"
    "last S = 0 \<or> isLineTerminator (src ! (last S - 1))"
    by simp_all
  from inv f1 f2 show ?thesis
    by (simp add: src_def[symmetric] String_slice_nat)
qed

subsection \<open>The two conversions\<close>

lemma property_line [simp]: "property [(''line'', l), (''column'', c)] ''line'' = l"
  by (simp add: property_def)

lemma property_column [simp]: "property [(''line'', l), (''column'', c)] ''column'' = c"
  by (simp add: property_def)

lemma getIndexFromLoc_on_line:
  assumes k: "1 \<le> k" "k \<le> int (length (lineStartIndices this))"
  shows "getIndexFromLoc this (JSObject [(''line'', JSNumber (num k)), (''column'', JSNumber (num c))]) =
     (let lineStartIndex = int (lineStartIndices this ! nat (k - 1));
          lineEndIndex = (if k = int (length (lineStartIndices this)) then int (length (text' this))
                          else int (lineStartIndices this ! nat k));
          positionIndex = lineStartIndex + c
      in if (k = int (length (lineStartIndices this)) \<and> positionIndex > lineEndIndex) \<or>
            (k < int (length (lineStartIndices this)) \<and> positionIndex \<ge> lineEndIndex)
         then Inl RangeError else Inr (num positionIndex))"
  using k by (simp add: getIndexFromLoc_def Let_def)

lemma getLocFromIndex_end:
  assumes "lines this \<noteq> []"
  shows "getLocFromIndex this (JSNumber (num (int (length (text' this))))) =
     Inr (JSObject [(''line'', JSNumber (num (int (length (lines this))))),
                    (''column'', JSNumber (num (int (length (last (lines this))))))])"
  using assms by (cases "lines this") (simp_all add: getLocFromIndex_def)

lemma getLocFromIndex_inside:
  assumes "0 \<le> i" "i < int (length (text' this))" "lineStartIndices this \<noteq> []"
  shows "getLocFromIndex this (JSNumber (num i)) =
     (let lineNumber = (if int (last (lineStartIndices this)) \<le> i
                        then int (length (lineStartIndices this))
                        else findIndex (\<lambda>el. i < int el) (lineStartIndices this))
      in Inr (JSObject [(''line'', JSNumber (num lineNumber)),
                        (''column'', JSNumber (num_sub (num i)
                           (toNumber (array_get (lineStartIndices this) (num (lineNumber - 1))))))]))"
  using assms by (simp add: getLocFromIndex_def Let_def last_conv_nth nat_diff_distrib')

lemma position_roundtrip:
  assumes ne: "lineStartIndices this \<noteq> []"
    and hd0: "hd (lineStartIndices this) = 0"
    and lastle: "last (lineStartIndices this) \<le> length (text' this)"
    and len: "length (lines this) = length (lineStartIndices this)"
    and lastline: "length (last (lines this)) = length (text' this) - last (lineStartIndices this)"
    and i: "0 \<le> i" "i \<le> int (length (text' this))"
  shows "\<exists>loc. getLocFromIndex this (JSNumber (num i)) = Inr loc \<and>
               getIndexFromLoc this loc = Inr (num i)"
proof -
  let ?starts = "lineStartIndices this"
  let ?n = "int (length ?starts)"
  from ne have npos: "1 \<le> ?n" by (cases ?starts) simp_all
  from ne have lastnth: "?starts ! nat (?n - 1) = last ?starts"
    by (simp add: last_conv_nth nat_diff_distrib')
  show ?thesis
  proof (cases "i = int (length (text' this))")
    case True
    from ne len have "lines this \<noteq> []" by auto
    from getLocFromIndex_end[OF this] True
    have loc: "getLocFromIndex this (JSNumber (num i)) =
       Inr (JSObject [(''line'', JSNumber (num ?n)),
                      (''column'', JSNumber (num (int (length (last (lines this))))))])"
      by (simp add: len)
    have "getIndexFromLoc this (JSObject [(''line'', JSNumber (num ?n)),
            (''column'', JSNumber (num (int (length (last (lines this))))))]) = Inr (num i)"
      using npos lastle True
      by (subst getIndexFromLoc_on_line) (simp_all add: Let_def lastnth lastline)
    with loc show ?thesis by simp
  next
    case False
    with i have lt: "i < int (length (text' this))" by simp
    show ?thesis
    proof (cases "int (last ?starts) \<le> i")
      case True
      from getLocFromIndex_inside[OF i(1) lt ne] True npos ne
      have loc: "getLocFromIndex this (JSNumber (num i)) =
         Inr (JSObject [(''line'', JSNumber (num ?n)),
                        (''column'', JSNumber (num (i - int (last ?starts))))])"
        by (simp add: Let_def lastnth)
      have "getIndexFromLoc this (JSObject [(''line'', JSNumber (num ?n)),
              (''column'', JSNumber (num (i - int (last ?starts))))]) = Inr (num i)"
        using npos lt
        by (subst getIndexFromLoc_on_line) (simp_all add: Let_def lastnth)
      with loc show ?thesis by simp
    next
      case False
      let ?k = "findIndex (\<lambda>el. i < int el) ?starts"
      from False ne have "\<exists>x\<in>set ?starts. i < int x"
        by (intro bexI[of _ "last ?starts"]) simp_all
      with findIndex_none[of "\<lambda>el. i < int el" ?starts] have k0: "0 \<le> ?k" by auto
      from findIndex_bounds[of "\<lambda>el. i < int el" ?starts] have kn: "?k < ?n" by simp
      from findIndex_found[OF k0] have found: "i < int (?starts ! nat ?k)" by simp
      from ne hd0 have "?starts ! 0 = 0" by (simp add: hd_conv_nth)
      with found i(1) have "nat ?k \<noteq> 0" by (intro notI) simp
      with k0 have k1: "1 \<le> ?k" by simp
      from getLocFromIndex_inside[OF i(1) lt ne] False k1 kn ne
      have loc: "getLocFromIndex this (JSNumber (num i)) =
         Inr (JSObject [(''line'', JSNumber (num ?k)),
                        (''column'', JSNumber (num (i - int (?starts ! nat (?k - 1)))))])"
        by (simp add: Let_def)
      have "getIndexFromLoc this (JSObject [(''line'', JSNumber (num ?k)),
              (''column'', JSNumber (num (i - int (?starts ! nat (?k - 1)))))]) = Inr (num i)"
        using k1 kn found
        by (subst getIndexFromLoc_on_line) (simp_all add: Let_def)
      with loc show ?thesis by simp
    qed
  qed
qed


subsection \<open>The fields of a constructed object\<close>

lemma SourceCode_text:
  "text' (SourceCode dvk cfg) =
     (if cfg_text cfg \<noteq> [] \<and> hd (cfg_text cfg) = 0xFEFF
      then String_slice (cfg_text cfg) 1 None else cfg_text cfg)"
  by (simp add: SourceCode_def Let_def split: prod.splits)

lemma SourceCode_lineStartIndices:
  "lineStartIndices (SourceCode dvk cfg) = snd (lines_loop (text' (SourceCode dvk cfg)) 0 [] [0])"
  by (simp add: SourceCode_def Let_def split: prod.splits)

lemma SourceCode_lines:
  "lines (SourceCode dvk cfg) =
     fst (lines_loop (text' (SourceCode dvk cfg)) 0 [] [0]) @
     [String_slice (text' (SourceCode dvk cfg))
        (int (last (lineStartIndices (SourceCode dvk cfg)))) None]"
  by (simp add: SourceCode_def Let_def split: prod.splits)

lemma SourceCode_lines_nonempty: "lines (SourceCode dvk cfg) \<noteq> []"
  by (simp add: SourceCode_lines)


lemma SourceCode_ast:
  "ntokens (ast (SourceCode dvk cfg)) = ntokens (cfg_ast cfg) \<and>
   ncomments (ast (SourceCode dvk cfg)) =
     retagShebang (text' (SourceCode dvk cfg)) (ncomments (cfg_ast cfg)) \<and>
   ntype (ast (SourceCode dvk cfg)) = ntype (cfg_ast cfg) \<and>
   nrange (ast (SourceCode dvk cfg)) = nrange (cfg_ast cfg) \<and>
   nparent (ast (SourceCode dvk cfg)) = nparent (cfg_ast cfg) \<and>
   nfields (ast (SourceCode dvk cfg)) = nfields (cfg_ast cfg)"
  by (simp add: SourceCode_def Let_def split: prod.splits)

lemma SourceCode_token_store:
  "tokensAndComments (SourceCode dvk cfg) =
     sortedMerge (ntokens (ast (SourceCode dvk cfg))) (ncomments (ast (SourceCode dvk cfg))) \<and>
   getTokens (SourceCode dvk cfg) =
     TokenStore_getTokens (ntokens (ast (SourceCode dvk cfg))) (ncomments (ast (SourceCode dvk cfg))) \<and>
   getTokenBefore (SourceCode dvk cfg) =
     TokenStore_getTokenBefore (ntokens (ast (SourceCode dvk cfg))) (ncomments (ast (SourceCode dvk cfg))) \<and>
   getTokenAfter (SourceCode dvk cfg) =
     TokenStore_getTokenAfter (ntokens (ast (SourceCode dvk cfg))) (ncomments (ast (SourceCode dvk cfg))) \<and>
   getFirstToken (SourceCode dvk cfg) =
     TokenStore_getFirstToken (ntokens (ast (SourceCode dvk cfg))) (ncomments (ast (SourceCode dvk cfg))) \<and>
   getLastToken (SourceCode dvk cfg) =
     TokenStore_getLastToken (ntokens (ast (SourceCode dvk cfg))) (ncomments (ast (SourceCode dvk cfg)))"
  by (simp add: SourceCode_def Let_def split: prod.splits)

lemma SourceCode_navigation:
  "getTokens (SourceCode dvk cfg) x True flt =
     filter (\<lambda>t. insideRange (rangeOf x) t \<and> flt t) (tokensAndComments (SourceCode dvk cfg))"
  "getTokenBefore (SourceCode dvk cfg) x True =
     List.find (\<lambda>t. snd (trange t) \<le> fst (rangeOf x)) (rev (tokensAndComments (SourceCode dvk cfg)))"
  "getTokenAfter (SourceCode dvk cfg) x True =
     List.find (\<lambda>t. snd (rangeOf x) \<le> fst (trange t)) (tokensAndComments (SourceCode dvk cfg))"
  by (simp_all add: SourceCode_token_store TokenStore_getTokens_def TokenStore_getTokenBefore_def
        TokenStore_getTokenAfter_def TokenStore_stream_def)


lemma SourceCode_scopeManager: "scopeManager (SourceCode dvk cfg) = cfg_scopeManager cfg"
  by (simp add: SourceCode_def Let_def split: prod.splits)


subsection \<open>An example source\<close>

text \<open>
  The text \<open>a//x\<close>, a line feed, \<open>b\<close>: the tokens \<open>a\<close> at \<open>[0, 1)\<close> and \<open>b\<close> at
  \<open>[5, 6)\<close>, the comment \<open>//x\<close> at \<open>[1, 4)\<close>, and two expression statements under the
  Program node. \<open>exampleKeys\<close> stands for the default visitor keys.
\<close>

definition exampleKeys :: "string \<Rightarrow> string list" where
  "exampleKeys t =
     (if t = ''Program'' then [''body'']
      else if t = ''ExpressionStatement'' then [''expression'']
      else if t = ''BlockStatement'' then [''body'']
      else if t = ''FunctionExpression'' then [''id'', ''params'', ''body'']
      else [])"

definition exampleA_text :: jsstring where
  "exampleA_text = [0x61, 0x2F, 0x2F, 0x78, 0x0A, 0x62]"

text \<open>
  The nodes as their children see them through \<open>parent\<close> (type, range and parent chain),
  the two identifiers, and the tree as the traverser walks it from the Program node.
\<close>

definition exampleA_root :: node where
  "exampleA_root = Node ''Program'' (0, 6) None [] [] []"

definition exampleA_first :: node where
  "exampleA_first = Node ''ExpressionStatement'' (0, 1) (Some exampleA_root) [] [] []"

definition exampleA_second :: node where
  "exampleA_second = Node ''ExpressionStatement'' (5, 6) (Some exampleA_root) [] [] []"

definition exampleA_a :: node where
  "exampleA_a = Node ''Identifier'' (0, 1) (Some exampleA_first) [] [] []"

definition exampleA_b :: node where
  "exampleA_b = Node ''Identifier'' (5, 6) (Some exampleA_second) [] [] []"

definition exampleA_ast :: node where
  "exampleA_ast =
     Node ''Program'' (0, 6) None
       [(''body'',
         [Some (Node ''ExpressionStatement'' (0, 1) (Some exampleA_root)
                  [(''expression'', [Some exampleA_a])] [] []),
          Some (Node ''ExpressionStatement'' (5, 6) (Some exampleA_root)
                  [(''expression'', [Some exampleA_b])] [] [])])]
       [\<lparr>ttype = ''Identifier'', tvalue = [0x61], trange = (0, 1)\<rparr>,
        \<lparr>ttype = ''Identifier'', tvalue = [0x62], trange = (5, 6)\<rparr>]
       [\<lparr>ttype = ''Line'', tvalue = [0x78], trange = (1, 4)\<rparr>]"

definition exampleA :: source_code where
  "exampleA = SourceCode exampleKeys
     \<lparr>cfg_text = exampleA_text, cfg_ast = exampleA_ast,
      cfg_scopeManager = None, cfg_visitorKeys = None\<rparr>"

lemma lines_loop_exampleA:
  "lines_loop [0x61, 0x2F, 0x2F, 0x78, 0x0A, 0x62] 0 [] [0] = ([[0x61, 0x2F, 0x2F, 0x78]], [0, 5])"
  by (simp add: lines_loop.simps lineEndingPattern_exec.simps isLineTerminator_def
        String_slice_def)

lemma exampleA_text': "text' exampleA = [0x61, 0x2F, 0x2F, 0x78, 0x0A, 0x62]"
  by (simp add: exampleA_def SourceCode_text exampleA_text_def)

lemma exampleA_lineStartIndices: "lineStartIndices exampleA = [0, 5]"
  using SourceCode_lineStartIndices[of exampleKeys
    "\<lparr>cfg_text = exampleA_text, cfg_ast = exampleA_ast,
      cfg_scopeManager = None, cfg_visitorKeys = None\<rparr>"]
  by (simp add: exampleA_def[symmetric] exampleA_text' lines_loop_exampleA)

lemma exampleA_lines: "lines exampleA = [[0x61, 0x2F, 0x2F, 0x78], [0x62]]"
  using SourceCode_lines[of exampleKeys
    "\<lparr>cfg_text = exampleA_text, cfg_ast = exampleA_ast,
      cfg_scopeManager = None, cfg_visitorKeys = None\<rparr>"]
  by (simp add: exampleA_def[symmetric] exampleA_text' exampleA_lineStartIndices
        lines_loop_exampleA String_slice_def)


lemma exampleA_ast': "ast exampleA = exampleA_ast"
  by (simp add: exampleA_def SourceCode_def Let_def exampleA_ast_def exampleA_text_def
        retagShebang_def shebangPattern_match_def String_slice_def split: prod.splits)

lemma exampleA_visitorKeys: "visitorKeys exampleA = exampleKeys"
  by (simp add: exampleA_def SourceCode_def Let_def split: prod.splits)

lemma exampleA_stream:
  "tokensAndComments exampleA =
     [\<lparr>ttype = ''Identifier'', tvalue = [0x61], trange = (0, 1)\<rparr>,
      \<lparr>ttype = ''Line'', tvalue = [0x78], trange = (1, 4)\<rparr>,
      \<lparr>ttype = ''Identifier'', tvalue = [0x62], trange = (5, 6)\<rparr>]"
  using SourceCode_token_store[of exampleKeys
    "\<lparr>cfg_text = exampleA_text, cfg_ast = exampleA_ast,
      cfg_scopeManager = None, cfg_visitorKeys = None\<rparr>", folded exampleA_def]
  by (simp add: exampleA_ast' exampleA_ast_def sortedMerge_merge_lists)

lemma exampleA_store:
  "getTokenAfter exampleA x True =
     List.find (\<lambda>t. snd (rangeOf x) \<le> fst (trange t)) (tokensAndComments exampleA)"
  "getLastToken exampleA x = List.find (insideRange (rangeOf x)) (rev (ntokens exampleA_ast))"
  "getFirstToken exampleA x = List.find (insideRange (rangeOf x)) (ntokens exampleA_ast)"
  using SourceCode_token_store[of exampleKeys
    "\<lparr>cfg_text = exampleA_text, cfg_ast = exampleA_ast,
      cfg_scopeManager = None, cfg_visitorKeys = None\<rparr>", folded exampleA_def]
    SourceCode_navigation(3)[of exampleKeys
    "\<lparr>cfg_text = exampleA_text, cfg_ast = exampleA_ast,
      cfg_scopeManager = None, cfg_visitorKeys = None\<rparr>", folded exampleA_def]
  by (simp_all add: exampleA_ast' TokenStore_getLastToken_def TokenStore_getFirstToken_def)


subsection \<open>The claims on positions\<close>

text \<open>
  C1: for every source text and every integer offset \<open>i\<close> with \<open>0 \<le> i \<le> text.length\<close>,
  \<open>getLocFromIndex(i)\<close> returns a location and \<open>getIndexFromLoc\<close> of that location is
  \<open>i\<close>; the end-of-file offset \<open>i = text.length\<close> is included.
\<close>

theorem C1_roundtrip:
  assumes "0 \<le> i" and "i \<le> int (length (text' (SourceCode dvk cfg)))"
  shows "\<exists>loc. getLocFromIndex (SourceCode dvk cfg) (JSNumber (num i)) = Inr loc \<and>
               getIndexFromLoc (SourceCode dvk cfg) loc = Inr (num i)"
proof -
  from SourceCode_position_fields[of dvk cfg]
  have "lineStartIndices (SourceCode dvk cfg) \<noteq> []"
    "hd (lineStartIndices (SourceCode dvk cfg)) = 0"
    "last (lineStartIndices (SourceCode dvk cfg)) \<le> length (text' (SourceCode dvk cfg))"
    "length (lines (SourceCode dvk cfg)) = length (lineStartIndices (SourceCode dvk cfg))"
    "length (last (lines (SourceCode dvk cfg))) =
       length (text' (SourceCode dvk cfg)) - last (lineStartIndices (SourceCode dvk cfg))"
    by simp_all
  from position_roundtrip[OF this assms] show ?thesis .
qed

theorem C1_roundtrip_witness:
  "(0::int) \<le> 5 \<and> 5 \<le> int (length (text' exampleA)) \<and>
   getLocFromIndex exampleA (JSNumber (num 5)) =
     Inr (JSObject [(''line'', JSNumber (num 2)), (''column'', JSNumber (num 0))]) \<and>
   getIndexFromLoc exampleA
     (JSObject [(''line'', JSNumber (num 2)), (''column'', JSNumber (num 0))]) = Inr (num 5)"
proof -
  have le: "5 \<le> int (length (text' exampleA))"
    by (simp add: exampleA_text')
  have loc: "getLocFromIndex exampleA (JSNumber (num 5)) =
     Inr (JSObject [(''line'', JSNumber (num 2)), (''column'', JSNumber (num 0))])"
    by (simp add: getLocFromIndex_def exampleA_text' exampleA_lineStartIndices exampleA_lines)
  from C1_roundtrip[of 5 exampleKeys
    "\<lparr>cfg_text = exampleA_text, cfg_ast = exampleA_ast,
      cfg_scopeManager = None, cfg_visitorKeys = None\<rparr>", folded exampleA_def] le loc
  show ?thesis by simp
qed

text \<open>
  \<open>Number.isInteger\<close>, the sense in which C2 says that an argument is an integer.
\<close>

definition isInteger :: "jsvalue \<Rightarrow> bool" where
  "isInteger v = (case v of JSNumber (Finite q) \<Rightarrow> q = of_int \<lfloor>q\<rfloor> | _ \<Rightarrow> False)"


text \<open>
  C2, as the claim states it, fails: the source tests \<open>typeof index !== "number"\<close>, so
  a number that is not an integer passes the type check. On the example text the offset
  1.5 is in range (the text has 6 code units) and a location comes back, with column 1.5.
\<close>

theorem C2_type_error_counterexample:
  "\<not> isInteger (JSNumber (Finite (3 / 2))) \<and>
   getLocFromIndex exampleA (JSNumber (Finite (3 / 2))) =
     Inr (JSObject [(''line'', JSNumber (num 1)), (''column'', JSNumber (Finite (3 / 2)))])"
proof -
  have fl: "\<lfloor>3 / 2 :: rat\<rfloor> = 1" by (simp add: floor_eq_iff)
  have "of_int \<lfloor>3 / 2 :: rat\<rfloor> \<noteq> (3 / 2 :: rat)" unfolding fl by simp
  then have a: "\<not> isInteger (JSNumber (Finite (3 / 2)))"
    by (simp add: isInteger_def del: floor_divide_eq_div_numeral)
  have b: "getLocFromIndex exampleA (JSNumber (Finite (3 / 2))) =
     Inr (JSObject [(''line'', JSNumber (num 1)), (''column'', JSNumber (Finite (3 / 2)))])"
    by (simp add: getLocFromIndex_def exampleA_text' exampleA_lineStartIndices
        exampleA_lines num_def num_gt_def num_ge_def num_le_def num_sub_def)
  from a b show ?thesis by (rule conjI)
qed

lemma getLocFromIndex_RangeError:
  "(getLocFromIndex (SourceCode dvk cfg) (JSNumber n) = Inl RangeError) =
     (num_lt n (num 0) \<or> num_gt n (num (int (length (text' (SourceCode dvk cfg))))))"
  using SourceCode_lines_nonempty[of dvk cfg]
  by (cases "lines (SourceCode dvk cfg)") (simp_all add: getLocFromIndex_def Let_def)

lemma getLocFromIndex_TypeError:
  "(getLocFromIndex (SourceCode dvk cfg) v = Inl TypeError) = (typeof v \<noteq> ''number'')"
proof (cases v)
  case (JSNumber n)
  with SourceCode_lines_nonempty[of dvk cfg] show ?thesis
    by (cases "lines (SourceCode dvk cfg)") (simp_all add: getLocFromIndex_def Let_def)
qed (simp_all add: getLocFromIndex_def)

lemma getLocFromIndex_cases:
  "getLocFromIndex this v = Inl TypeError \<or> getLocFromIndex this v = Inl RangeError \<or>
   (\<exists>loc. getLocFromIndex this v = Inr loc)"
  by (cases v; cases "lines this") (auto simp: getLocFromIndex_def Let_def)


text \<open>
  C2 (amended): \<open>getLocFromIndex\<close> raises a type-kind error exactly when its argument is
  not a number; it raises a range-kind error for every integer below 0 or above the text
  length; and for every integer in \<open>[0, text.length]\<close> it raises no error.
\<close>

theorem C2_error_kinds:
  "((getLocFromIndex (SourceCode dvk cfg) v = Inl TypeError) = (typeof v \<noteq> ''number'')) \<and>
   (\<forall>i. i < 0 \<or> int (length (text' (SourceCode dvk cfg))) < i \<longrightarrow>
        getLocFromIndex (SourceCode dvk cfg) (JSNumber (num i)) = Inl RangeError) \<and>
   (\<forall>i. 0 \<le> i \<and> i \<le> int (length (text' (SourceCode dvk cfg))) \<longrightarrow>
        (\<exists>loc. getLocFromIndex (SourceCode dvk cfg) (JSNumber (num i)) = Inr loc))"
proof (intro conjI allI impI)
  show "(getLocFromIndex (SourceCode dvk cfg) v = Inl TypeError) = (typeof v \<noteq> ''number'')"
    by (rule getLocFromIndex_TypeError)
next
  fix i :: int
  assume "i < 0 \<or> int (length (text' (SourceCode dvk cfg))) < i"
  then show "getLocFromIndex (SourceCode dvk cfg) (JSNumber (num i)) = Inl RangeError"
    by (simp add: getLocFromIndex_RangeError)
next
  fix i :: int
  assume "0 \<le> i \<and> i \<le> int (length (text' (SourceCode dvk cfg)))"
  then have "getLocFromIndex (SourceCode dvk cfg) (JSNumber (num i)) \<noteq> Inl RangeError"
    by (simp add: getLocFromIndex_RangeError)
  moreover have "getLocFromIndex (SourceCode dvk cfg) (JSNumber (num i)) \<noteq> Inl TypeError"
    by (simp add: getLocFromIndex_TypeError)
  ultimately show "\<exists>loc. getLocFromIndex (SourceCode dvk cfg) (JSNumber (num i)) = Inr loc"
    using getLocFromIndex_cases[of "SourceCode dvk cfg" "JSNumber (num i)"] by blast
qed


theorem C2_error_kinds_witness:
  "getLocFromIndex exampleA (JSString [0x31]) = Inl TypeError \<and>
   getLocFromIndex exampleA (JSNumber (num (- 1))) = Inl RangeError \<and>
   getLocFromIndex exampleA (JSNumber (num 7)) = Inl RangeError \<and>
   getLocFromIndex exampleA (JSNumber (num 6)) =
     Inr (JSObject [(''line'', JSNumber (num 2)), (''column'', JSNumber (num 1))])"
proof -
  have "getLocFromIndex exampleA (JSNumber (num 6)) =
     Inr (JSObject [(''line'', JSNumber (num 2)), (''column'', JSNumber (num 1))])"
    by (simp add: getLocFromIndex_def exampleA_text' exampleA_lineStartIndices exampleA_lines)
  with C2_error_kinds[of exampleKeys
    "\<lparr>cfg_text = exampleA_text, cfg_ast = exampleA_ast,
      cfg_scopeManager = None, cfg_visitorKeys = None\<rparr>" "JSString [0x31]",
    folded exampleA_def]
  show ?thesis by (simp add: exampleA_text')
qed

text \<open>
  C3, as the claim states it, fails: on the text \<open>a//x\<close>, line feed, \<open>b\<close>, line 1 starts
  at 0 and line 2 at 5, and \<open>{line: 1, column: 5}\<close> meets the test
  \<open>loc.line < lineStartIndices.length && positionIndex >= lineEndIndex\<close>.
\<close>

theorem C3_column_counterexample:
  "getIndexFromLoc exampleA
     (JSObject [(''line'', JSNumber (num 1)), (''column'', JSNumber (num 5))]) = Inl RangeError"
  by (subst getIndexFromLoc_on_line) (simp_all add: exampleA_lineStartIndices exampleA_text')

lemma lineStartIndices_exampleA_text:
  "lineStartIndices (SourceCode dvk \<lparr>cfg_text = exampleA_text, cfg_ast = a,
      cfg_scopeManager = sm, cfg_visitorKeys = vk\<rparr>) = [0, 5]"
  by (simp add: SourceCode_lineStartIndices SourceCode_text exampleA_text_def lines_loop_exampleA)


text \<open>
  C3 (amended): for the text \<open>a//x\<close>, line feed, \<open>b\<close> (with any tree),
  \<open>getIndexFromLoc({line: 1, column: 5})\<close> raises a range-kind error and the offset 5 is
  \<open>{line: 2, column: 0}\<close>. In general a column that reaches the start of the next line
  is rejected on every line but the last, and on the last line the column equal to the
  line's length is accepted and gives the text length.
\<close>

theorem C3_column_at_line_end:
  "getIndexFromLoc (SourceCode dvk \<lparr>cfg_text = exampleA_text, cfg_ast = a,
       cfg_scopeManager = sm, cfg_visitorKeys = vk\<rparr>)
     (JSObject [(''line'', JSNumber (num 1)), (''column'', JSNumber (num 5))]) = Inl RangeError \<and>
   getIndexFromLoc (SourceCode dvk \<lparr>cfg_text = exampleA_text, cfg_ast = a,
       cfg_scopeManager = sm, cfg_visitorKeys = vk\<rparr>)
     (JSObject [(''line'', JSNumber (num 2)), (''column'', JSNumber (num 0))]) = Inr (num 5) \<and>
   (\<forall>k c. 1 \<le> k \<and> k < int (length (lineStartIndices (SourceCode dvk cfg))) \<and>
          int (lineStartIndices (SourceCode dvk cfg) ! nat k) \<le>
            int (lineStartIndices (SourceCode dvk cfg) ! nat (k - 1)) + c \<longrightarrow>
      getIndexFromLoc (SourceCode dvk cfg)
        (JSObject [(''line'', JSNumber (num k)), (''column'', JSNumber (num c))]) =
      Inl RangeError) \<and>
   getIndexFromLoc (SourceCode dvk cfg)
     (JSObject [(''line'', JSNumber (num (int (length (lineStartIndices (SourceCode dvk cfg)))))),
                (''column'', JSNumber (num (int (length (last (lines (SourceCode dvk cfg)))))))])
     = Inr (num (int (length (text' (SourceCode dvk cfg)))))"
proof (intro conjI allI impI)
  let ?ex = "SourceCode dvk \<lparr>cfg_text = exampleA_text, cfg_ast = a,
       cfg_scopeManager = sm, cfg_visitorKeys = vk\<rparr>"
  have t: "length (text' ?ex) = 6"
    by (simp add: SourceCode_text exampleA_text_def)
  show "getIndexFromLoc ?ex
     (JSObject [(''line'', JSNumber (num 1)), (''column'', JSNumber (num 5))]) = Inl RangeError"
    by (subst getIndexFromLoc_on_line) (simp_all add: lineStartIndices_exampleA_text)
  show "getIndexFromLoc ?ex
     (JSObject [(''line'', JSNumber (num 2)), (''column'', JSNumber (num 0))]) = Inr (num 5)"
    by (subst getIndexFromLoc_on_line)
       (simp_all add: lineStartIndices_exampleA_text t)
next
  fix k c
  assume h: "1 \<le> k \<and> k < int (length (lineStartIndices (SourceCode dvk cfg))) \<and>
          int (lineStartIndices (SourceCode dvk cfg) ! nat k) \<le>
            int (lineStartIndices (SourceCode dvk cfg) ! nat (k - 1)) + c"
  then show "getIndexFromLoc (SourceCode dvk cfg)
        (JSObject [(''line'', JSNumber (num k)), (''column'', JSNumber (num c))]) =
      Inl RangeError"
    by (subst getIndexFromLoc_on_line) (simp_all add: Let_def)
next
  let ?sc = "SourceCode dvk cfg"
  from SourceCode_position_fields[of dvk cfg]
  have ne: "lineStartIndices ?sc \<noteq> []"
    and le: "last (lineStartIndices ?sc) \<le> length (text' ?sc)"
    and ll: "last (lines ?sc) = drop (last (lineStartIndices ?sc)) (text' ?sc)"
    by simp_all
  from ne have lastnth:
    "lineStartIndices ?sc ! nat (int (length (lineStartIndices ?sc)) - 1) = last (lineStartIndices ?sc)"
    by (simp add: last_conv_nth nat_diff_distrib')
  from ne have "1 \<le> int (length (lineStartIndices ?sc))"
    by (cases "lineStartIndices ?sc") simp_all
  then show "getIndexFromLoc ?sc
     (JSObject [(''line'', JSNumber (num (int (length (lineStartIndices ?sc))))),
                (''column'', JSNumber (num (int (length (last (lines ?sc))))))])
     = Inr (num (int (length (text' ?sc))))"
    using le by (subst getIndexFromLoc_on_line) (simp_all add: Let_def lastnth ll)
qed


theorem C3_column_at_line_end_witness:
  "(1::int) \<le> 1 \<and> 1 < int (length (lineStartIndices exampleA)) \<and>
   int (lineStartIndices exampleA ! nat 1) \<le> int (lineStartIndices exampleA ! nat (1 - 1)) + 7 \<and>
   getIndexFromLoc exampleA
     (JSObject [(''line'', JSNumber (num 1)), (''column'', JSNumber (num 7))]) = Inl RangeError \<and>
   getIndexFromLoc exampleA
     (JSObject [(''line'', JSNumber (num 2)), (''column'', JSNumber (num 1))]) = Inr (num 6)"
  using C3_column_at_line_end[of exampleKeys exampleA_ast None None
    "\<lparr>cfg_text = exampleA_text, cfg_ast = exampleA_ast,
      cfg_scopeManager = None, cfg_visitorKeys = None\<rparr>", folded exampleA_def]
  by (simp add: exampleA_lineStartIndices exampleA_lines exampleA_text')


text \<open>
  The number of line breaks of a text, in the spec's words: CR, LF, the line separator
  and the paragraph separator each end a line, and a CR followed by LF ends one line.
\<close>

fun countLinebreaks :: "jsstring \<Rightarrow> nat" where
  "countLinebreaks [] = 0"
| "countLinebreaks [c] = (if isLineTerminator c then 1 else 0)"
| "countLinebreaks (c # d # cs) =
     (if c = 0x000D \<and> d = 0x000A then Suc (countLinebreaks cs)
      else if isLineTerminator c then Suc (countLinebreaks (d # cs))
      else countLinebreaks (d # cs))"


lemma countLinebreaks_none:
  "(\<forall>c\<in>set xs. \<not> isLineTerminator c) \<Longrightarrow> countLinebreaks xs = 0"
  by (induction xs rule: countLinebreaks.induct) (auto simp: isLineTerminator_def)

lemma countLinebreaks_exec_None:
  assumes "lineEndingPattern_exec s i = None"
  shows "countLinebreaks (drop i s) = 0"
proof (rule countLinebreaks_none, rule ballI)
  fix c assume "c \<in> set (drop i s)"
  then obtain j where "j < length (drop i s)" "c = drop i s ! j"
    by (auto simp: in_set_conv_nth)
  then have "c = s ! (i + j)" "i + j < length s" by auto
  with lineEndingPattern_exec_None[OF assms, of "i + j"] show "\<not> isLineTerminator c" by simp
qed

lemma countLinebreaks_exec_Some:
  "lineEndingPattern_exec s i = Some (index, len) \<Longrightarrow>
     countLinebreaks (drop i s) = Suc (countLinebreaks (drop (index + len) s))"
proof (induction s i rule: lineEndingPattern_exec.induct)
  case (1 s lastIndex)
  have unfold: "lineEndingPattern_exec s lastIndex =
     (if lastIndex \<ge> length s then None
      else if s ! lastIndex = 0x000D \<and> Suc lastIndex < length s \<and> s ! Suc lastIndex = 0x000A
        then Some (lastIndex, 2)
      else if isLineTerminator (s ! lastIndex) then Some (lastIndex, 1)
      else lineEndingPattern_exec s (Suc lastIndex))"
    by (rule lineEndingPattern_exec.simps)
  from "1.prems" unfold have inside: "\<not> lastIndex \<ge> length s"
    by (auto split: if_splits)
  then have d1: "drop lastIndex s = s ! lastIndex # drop (Suc lastIndex) s"
    by (simp add: Cons_nth_drop_Suc)
  show ?case
  proof (cases "s ! lastIndex = 0x000D \<and> Suc lastIndex < length s \<and> s ! Suc lastIndex = 0x000A")
    case True
    with "1.prems" unfold inside have il: "index = lastIndex" "len = 2" by auto
    from True have "Suc lastIndex < length s" by simp
    then have d2: "drop (Suc lastIndex) s = s ! Suc lastIndex # drop (Suc (Suc lastIndex)) s"
      by (simp add: Cons_nth_drop_Suc)
    from True show ?thesis by (simp add: d1 il) (simp add: d2)
  next
    case crlf: False
    show ?thesis
    proof (cases "isLineTerminator (s ! lastIndex)")
      case True
      with "1.prems" unfold inside crlf have il: "index = lastIndex" "len = 1" by auto
      show ?thesis
      proof (cases "Suc lastIndex < length s")
        case True
        then have d2: "drop (Suc lastIndex) s = s ! Suc lastIndex # drop (Suc (Suc lastIndex)) s"
          by (simp add: Cons_nth_drop_Suc)
        from True crlf \<open>isLineTerminator (s ! lastIndex)\<close> show ?thesis
          by (auto simp: d1 d2 il)
      next
        case False
        with \<open>isLineTerminator (s ! lastIndex)\<close> show ?thesis by (simp add: d1 il)
      qed
    next
      case False
      with "1.prems" unfold inside crlf
      have r: "lineEndingPattern_exec s (Suc lastIndex) = Some (index, len)" by auto
      from lineEndingPattern_exec_bounds[OF r] have "Suc lastIndex < length s" by simp
      then have d2: "drop (Suc lastIndex) s = s ! Suc lastIndex # drop (Suc (Suc lastIndex)) s"
        by (simp add: Cons_nth_drop_Suc)
      from False have notcr: "s ! lastIndex \<noteq> 0x000D" by (auto simp: isLineTerminator_def)
      have "countLinebreaks (drop lastIndex s) = countLinebreaks (drop (Suc lastIndex) s)"
        using False notcr by (simp add: d1) (simp add: d2)
      with "1.IH"[OF inside crlf False r] show ?thesis by simp
    qed
  qed
qed

lemma lines_loop_count:
  "lines_loop s i lns starts = (L, S) \<Longrightarrow>
     length L = length lns + countLinebreaks (drop i s)"
proof (induction s i lns starts arbitrary: L S rule: lines_loop.induct)
  case (1 s lastIndex lns starts)
  show ?case
  proof (cases "lineEndingPattern_exec s lastIndex")
    case None
    with "1.prems" have "L = lns" by (simp add: lines_loop.simps)
    with countLinebreaks_exec_None[OF None] show ?thesis by simp
  next
    case (Some m)
    obtain index len where m: "m = (index, len)" by (cases m)
    from Some m have ex: "lineEndingPattern_exec s lastIndex = Some (index, len)" by simp
    from ex "1.prems"
    have r: "lines_loop s (index + len)
               (lns @ [String_slice s (int (last starts)) (Some (int index))])
               (starts @ [index + len]) = (L, S)"
      by (simp add: lines_loop.simps)
    from "1.IH"[OF ex refl r] countLinebreaks_exec_Some[OF ex] show ?thesis by simp
  qed
qed

lemma last_line_suffix:
  assumes "k \<le> length s"
    and "\<And>j. k \<le> j \<Longrightarrow> j < length s \<Longrightarrow> \<not> P (s ! j)"
    and "k = 0 \<or> P (s ! (k - 1))"
  shows "drop k s = rev (takeWhile (\<lambda>c. \<not> P c) (rev s))"
proof -
  have all: "\<forall>c\<in>set (rev (drop k s)). \<not> P c"
  proof
    fix c assume "c \<in> set (rev (drop k s))"
    then obtain j where "j < length (drop k s)" "c = drop k s ! j"
      by (auto simp: in_set_conv_nth)
    with assms(2)[of "k + j"] show "\<not> P c" by auto
  qed
  have stop: "takeWhile (\<lambda>c. \<not> P c) (rev (take k s)) = []"
  proof (cases "k = 0")
    case True
    then show ?thesis by simp
  next
    case False
    with assms have ne: "take k s \<noteq> []" and p: "P (s ! (k - 1))" by auto
    from False assms(1) have "last (take k s) = s ! (k - 1)"
      using last_conv_nth[OF ne] by (simp add: min_def)
    with ne p show ?thesis by (simp add: takeWhile_eq_Nil_iff hd_rev)
  qed
  have split: "rev s = rev (drop k s) @ rev (take k s)"
    by (metis append_take_drop_id rev_append)
  have "takeWhile (\<lambda>c. \<not> P c) (rev (drop k s) @ rev (take k s)) =
          rev (drop k s) @ takeWhile (\<lambda>c. \<not> P c) (rev (take k s))"
    using all by (intro takeWhile_append2) simp
  with split stop have "takeWhile (\<lambda>c. \<not> P c) (rev s) = rev (drop k s)"
    by simp
  then show ?thesis by simp
qed


text \<open>
  C4: \<open>getLocFromIndex(text.length)\<close> returns \<open>{line, column}\<close> with \<open>line\<close> the number
  of lines and \<open>column\<close> the length of the last line. The number of lines is one more
  than the number of line breaks of the text, and the last line is the longest suffix of
  the text without a line terminator: what follows the last line break, possibly empty.
\<close>

theorem C4_end_of_text:
  "getLocFromIndex (SourceCode dvk cfg)
     (JSNumber (num (int (length (text' (SourceCode dvk cfg)))))) =
     Inr (JSObject
       [(''line'', JSNumber (num (int (length (lines (SourceCode dvk cfg)))))),
        (''column'', JSNumber (num (int (length (last (lines (SourceCode dvk cfg)))))))]) \<and>
   length (lines (SourceCode dvk cfg)) = Suc (countLinebreaks (text' (SourceCode dvk cfg))) \<and>
   last (lines (SourceCode dvk cfg)) =
     rev (takeWhile (\<lambda>c. \<not> isLineTerminator c) (rev (text' (SourceCode dvk cfg))))"
proof (intro conjI)
  let ?sc = "SourceCode dvk cfg"
  show "getLocFromIndex ?sc (JSNumber (num (int (length (text' ?sc))))) =
     Inr (JSObject [(''line'', JSNumber (num (int (length (lines ?sc))))),
                    (''column'', JSNumber (num (int (length (last (lines ?sc))))))])"
    by (rule getLocFromIndex_end) (rule SourceCode_lines_nonempty)
  obtain L S where ls: "lines_loop (text' ?sc) 0 [] [0] = (L, S)"
    by (cases "lines_loop (text' ?sc) 0 [] [0]")
  from lines_loop_count[OF ls] ls show "length (lines ?sc) = Suc (countLinebreaks (text' ?sc))"
    by (simp add: SourceCode_lines)
  from SourceCode_position_fields[of dvk cfg]
  have le: "last (lineStartIndices ?sc) \<le> length (text' ?sc)"
    and ll: "last (lines ?sc) = drop (last (lineStartIndices ?sc)) (text' ?sc)"
    and ex: "lineEndingPattern_exec (text' ?sc) (last (lineStartIndices ?sc)) = None"
    and before: "last (lineStartIndices ?sc) = 0 \<or>
        isLineTerminator (text' ?sc ! (last (lineStartIndices ?sc) - 1))"
    by simp_all
  from last_line_suffix[of "last (lineStartIndices ?sc)" "text' ?sc" isLineTerminator,
      OF le lineEndingPattern_exec_None[OF ex] before] ll
  show "last (lines ?sc) = rev (takeWhile (\<lambda>c. \<not> isLineTerminator c) (rev (text' ?sc)))"
    by simp
qed


theorem C4_end_of_text_witness:
  "getLocFromIndex exampleA (JSNumber (num 6)) =
     Inr (JSObject [(''line'', JSNumber (num 2)), (''column'', JSNumber (num 1))]) \<and>
   countLinebreaks (text' exampleA) = 1 \<and> last (lines exampleA) = [0x62]"
  using C4_end_of_text[of exampleKeys
    "\<lparr>cfg_text = exampleA_text, cfg_ast = exampleA_ast,
      cfg_scopeManager = None, cfg_visitorKeys = None\<rparr>", folded exampleA_def]
  by (simp add: exampleA_lines exampleA_text' isLineTerminator_def)

section \<open>Properties of getText\<close>

lemma String_slice_take_drop:
  assumes "0 \<le> from" "0 \<le> to"
  shows "String_slice s from (Some to) = drop (nat from) (take (nat to) s)"
proof -
  have "String_slice s from (Some to) =
          take (nat (min to (int (length s)) - min from (int (length s)))) (drop (nat (min from (int (length s)))) s)"
    using assms by (simp add: String_slice_def Let_def)
  also have "\<dots> = drop (nat from) (take (nat to) s)"
    using assms by (auto simp: drop_take min_def nat_diff_distrib')
  finally show ?thesis .
qed


text \<open>
  C10: \<open>getText\<close> with no node returns the whole text; with a node it returns the slice
  of the text from \<open>max(range[0] - beforeCount, 0)\<close> to \<open>range[1] + afterCount\<close>, an absent
  count being 0. The method is total: it raises nothing. When the end of the slice is not
  negative, the slice is the text up to that end without its first
  \<open>range[0] - beforeCount\<close> code units, so a \<open>beforeCount\<close> that is at least the node's
  start gives the text from its beginning.
\<close>

theorem C10_getText:
  "getText this None beforeCount afterCount = text' this \<and>
   getText this (Some n) beforeCount afterCount =
     String_slice (text' this) (max (fst (nrange n) - orZero beforeCount) 0)
       (Some (snd (nrange n) + orZero afterCount)) \<and>
   (0 \<le> snd (nrange n) + orZero afterCount \<longrightarrow>
      getText this (Some n) beforeCount afterCount =
        drop (nat (fst (nrange n) - orZero beforeCount))
          (take (nat (snd (nrange n) + orZero afterCount)) (text' this))) \<and>
   (fst (nrange n) \<le> orZero beforeCount \<and> 0 \<le> snd (nrange n) + orZero afterCount \<longrightarrow>
      getText this (Some n) beforeCount afterCount =
        take (nat (snd (nrange n) + orZero afterCount)) (text' this)) \<and>
   orZero None = 0"
proof (intro conjI impI)
  show "getText this None beforeCount afterCount = text' this"
    by (simp add: getText_def)
  show "getText this (Some n) beforeCount afterCount =
     String_slice (text' this) (max (fst (nrange n) - orZero beforeCount) 0)
       (Some (snd (nrange n) + orZero afterCount))"
    by (simp add: getText_def)
  show "orZero None = 0" by (simp add: orZero_def)
next
  assume "0 \<le> snd (nrange n) + orZero afterCount"
  then show "getText this (Some n) beforeCount afterCount =
        drop (nat (fst (nrange n) - orZero beforeCount))
          (take (nat (snd (nrange n) + orZero afterCount)) (text' this))"
    by (auto simp: getText_def String_slice_take_drop max_def)
next
  assume "fst (nrange n) \<le> orZero beforeCount \<and> 0 \<le> snd (nrange n) + orZero afterCount"
  then show "getText this (Some n) beforeCount afterCount =
        take (nat (snd (nrange n) + orZero afterCount)) (text' this)"
    by (simp add: getText_def String_slice_take_drop max_def)
qed


theorem C10_getText_witness:
  "getText exampleA (Some exampleA_b) (Some 7) None =
     [0x61, 0x2F, 0x2F, 0x78, 0x0A, 0x62] \<and>
   getText exampleA (Some exampleA_b) (Some 4) (Some (- 1)) =
     [0x2F, 0x2F, 0x78, 0x0A] \<and>
   getText exampleA None None None = [0x61, 0x2F, 0x2F, 0x78, 0x0A, 0x62]"
  using C10_getText[of exampleA "Some 7" None exampleA_b]
    C10_getText[of exampleA "Some 4" "Some (- 1)" exampleA_b]
  by (simp add: exampleA_text' orZero_def getText_def String_slice_def exampleA_b_def)

section \<open>Facts about lists\<close>

lemma filter_length_le:
  "(\<And>x. x \<in> set xs \<Longrightarrow> P x \<Longrightarrow> Q x) \<Longrightarrow> length (filter P xs) \<le> length (filter Q xs)"
  by (induction xs) auto

lemma filter_length_less:
  assumes "\<And>x. x \<in> set xs \<Longrightarrow> P x \<Longrightarrow> Q x" and "y \<in> set xs" and "Q y" and "\<not> P y"
  shows "length (filter P xs) < length (filter Q xs)"
  using assms
proof (induction xs)
  case Nil
  then show ?case by simp
next
  case (Cons x xs)
  have le: "length (filter P xs) \<le> length (filter Q xs)"
    using Cons.prems(1) by (intro filter_length_le) auto
  show ?case
  proof (cases "y = x")
    case True
    with Cons.prems le show ?thesis by auto
  next
    case False
    with Cons.prems have "y \<in> set xs" by simp
    from Cons.IH[OF _ this Cons.prems(3,4)] Cons.prems(1)
    have "length (filter P xs) < length (filter Q xs)" by auto
    with Cons.prems(1)[of x] show ?thesis by auto
  qed
qed

lemma find_SomeD: "List.find P xs = Some x \<Longrightarrow> P x \<and> x \<in> set xs"
  by (auto simp: find_Some_iff)

section \<open>getScope\<close>

text \<open>\<open>array[0]\<close>: the first element, \<open>undefined\<close> (here \<open>None\<close>) on an empty array.\<close>

definition index0 :: "'a list \<Rightarrow> 'a option" where
  "index0 xs = (case xs of [] \<Rightarrow> None | x # _ \<Rightarrow> Some x)"


text \<open>
  The \<open>for\<close> loop over the parent chain. \<open>Some result\<close> is the value of a \<open>return\<close>
  inside the loop (itself \<open>None\<close> when \<open>scope.childScopes[0]\<close> is \<open>undefined\<close>); \<open>None\<close>
  is the end of the chain.
\<close>

fun getScope_loop :: "scope_manager \<Rightarrow> bool \<Rightarrow> node \<Rightarrow> scope option option" where
  "getScope_loop manager inner (Node t r p fs tk cm) =
     (case acquire manager (Node t r p fs tk cm) inner of
        Some scope \<Rightarrow>
          if stype scope = ''function-expression-name''
          then Some (index0 (childScopes scope))
          else Some (Some scope)
      | None \<Rightarrow>
          (case p of
             None \<Rightarrow> None
           | Some parent \<Rightarrow> getScope_loop manager inner parent))"


text \<open>
  \<open>getScope(currentNode)\<close>, with the \<open>scopes\<close> cache as state: a map from nodes to
  scopes, where \<open>None\<close> is \<open>undefined\<close>, the value \<open>get\<close> gives for a key that was never
  set or was set to \<open>undefined\<close>. Without a scope manager (\<open>this.scopeManager\<close> is
  \<open>null\<close>) the first \<open>acquire\<close> call is a \<open>TypeError\<close> of the language.
\<close>

definition getScope ::
  "source_code \<Rightarrow> (node \<Rightarrow> scope option) \<Rightarrow> node option \<Rightarrow>
     (error + scope option) \<times> (node \<Rightarrow> scope option)" where
  "getScope this cache currentNode =
     (case currentNode of
        None \<Rightarrow> (Inl TypeError, cache)
      | Some current \<Rightarrow>
          (case cache current of
             Some cachedScope \<Rightarrow> (Inr (Some cachedScope), cache)
           | None \<Rightarrow>
               (case scopeManager this of
                  None \<Rightarrow> (Inl TypeError, cache)
                | Some manager \<Rightarrow>
                    (let inner = (ntype current \<noteq> ''Program'') in
                     case getScope_loop manager inner current of
                       Some scope \<Rightarrow> (Inr scope, cache(current := scope))
                     | None \<Rightarrow>
                         (Inr (index0 (scopes manager)),
                          cache(current := index0 (scopes manager)))))))"


subsection \<open>What getScope returns\<close>

text \<open>
  C9 in the claim's words: ascend the parent chain, starting at the node itself, with the
  flag \<open>inner\<close> of the node the query is about; take the first scope the resolver
  yields, or its first child scope when it is a \<open>function-expression-name\<close> scope; with
  no scope along the chain, take \<open>scopes[0]\<close>.
\<close>

fun parentChain :: "node \<Rightarrow> node list" where
  "parentChain (Node t r p fs tk cm) =
     Node t r p fs tk cm # (case p of None \<Rightarrow> [] | Some parent \<Rightarrow> parentChain parent)"

definition scopeOf :: "scope_manager \<Rightarrow> node \<Rightarrow> scope option" where
  "scopeOf manager current =
     (case List.map_filter (\<lambda>ancestor. acquire manager ancestor (ntype current \<noteq> ''Program''))
             (parentChain current) of
        [] \<Rightarrow> index0 (scopes manager)
      | scope # _ \<Rightarrow>
          if stype scope = ''function-expression-name'' then index0 (childScopes scope)
          else Some scope)"

lemma getScope_loop_chain:
  "getScope_loop manager inner n =
     (case List.map_filter (\<lambda>ancestor. acquire manager ancestor inner) (parentChain n) of
        [] \<Rightarrow> None
      | scope # _ \<Rightarrow>
          Some (if stype scope = ''function-expression-name'' then index0 (childScopes scope)
                else Some scope))"
proof (induction manager inner n rule: getScope_loop.induct)
  case (1 manager inner t r p fs tk cm)
  show ?case
  proof (cases "acquire manager (Node t r p fs tk cm) inner")
    case None
    show ?thesis
    proof (cases p)
      case pn: None
      with None show ?thesis by (simp add: List.map_filter_simps)
    next
      case (Some parent)
      with None "1.IH"[OF None Some] show ?thesis by (simp add: List.map_filter_simps)
    qed
  next
    case (Some scope)
    then show ?thesis by (simp add: List.map_filter_simps)
  qed
qed

lemma map_filter_first_Some:
  assumes "\<forall>x\<in>set pre. f x = None" and "f a = Some s"
  shows "List.map_filter f (pre @ a # post) = s # List.map_filter f post"
  using assms by (induction pre) (simp_all add: List.map_filter_simps)

lemma map_filter_all_None:
  assumes "\<forall>x\<in>set xs. f x = None"
  shows "List.map_filter f xs = []"
  using assms by (induction xs) (simp_all add: List.map_filter_simps)

lemma getScope_value:
  assumes "scopeManager this = Some manager"
  shows "getScope this cache (Some current) =
     (case cache current of
        Some cachedScope \<Rightarrow> (Inr (Some cachedScope), cache)
      | None \<Rightarrow> (Inr (scopeOf manager current), cache(current := scopeOf manager current)))"
  using assms
  by (auto simp: getScope_def Let_def getScope_loop_chain scopeOf_def
           split: list.splits option.splits)


text \<open>
  C9: for a present node, \<open>getScope\<close> raises nothing and returns \<open>scopeOf\<close>: the scope of
  the first node of the parent chain for which \<open>acquire\<close> yields one, replaced by its
  first child scope when its type is \<open>function-expression-name\<close>, and \<open>scopes[0]\<close> when
  no node of the chain has a scope. A cache that holds only such results stays so, which
  makes the cached answer the same as the computed one. An absent node is a type-kind
  error.
\<close>

theorem C9_getScope:
  assumes manager: "scopeManager this = Some manager"
    and cache: "\<forall>n s. cache n = Some s \<longrightarrow> scopeOf manager n = Some s"
  shows "fst (getScope this cache (Some current)) = Inr (scopeOf manager current) \<and>
         (\<forall>n s. snd (getScope this cache (Some current)) n = Some s \<longrightarrow>
                scopeOf manager n = Some s) \<and>
         getScope this cache None = (Inl TypeError, cache) \<and>
         (\<forall>pre a post s.
            parentChain current = pre @ a # post \<and>
            (\<forall>x\<in>set pre. acquire manager x (ntype current \<noteq> ''Program'') = None) \<and>
            acquire manager a (ntype current \<noteq> ''Program'') = Some s \<longrightarrow>
            scopeOf manager current =
              (if stype s = ''function-expression-name'' then index0 (childScopes s) else Some s)) \<and>
         ((\<forall>x\<in>set (parentChain current).
             acquire manager x (ntype current \<noteq> ''Program'') = None) \<longrightarrow>
            scopeOf manager current = index0 (scopes manager))"
proof (intro conjI allI impI)
  show "fst (getScope this cache (Some current)) = Inr (scopeOf manager current)"
    using cache by (cases "cache current") (simp_all add: getScope_value[OF manager])
  show "getScope this cache None = (Inl TypeError, cache)"
    by (simp add: getScope_def)
next
  fix n s
  assume "snd (getScope this cache (Some current)) n = Some s"
  with cache show "scopeOf manager n = Some s"
    by (cases "cache current") (auto simp: getScope_value[OF manager] split: if_splits)
next
  fix pre a post s
  assume "parentChain current = pre @ a # post \<and>
            (\<forall>x\<in>set pre. acquire manager x (ntype current \<noteq> ''Program'') = None) \<and>
            acquire manager a (ntype current \<noteq> ''Program'') = Some s"
  then show "scopeOf manager current =
              (if stype s = ''function-expression-name'' then index0 (childScopes s) else Some s)"
    by (simp add: scopeOf_def map_filter_first_Some)
next
  assume "\<forall>x\<in>set (parentChain current).
             acquire manager x (ntype current \<noteq> ''Program'') = None"
  then show "scopeOf manager current = index0 (scopes manager)"
    by (simp add: scopeOf_def map_filter_all_None)
qed

text \<open>
  An example: the text \<open>(function f(){})\<close>, where the resolver has the global scope on
  the Program node and a \<open>function-expression-name\<close> scope, with the function scope as
  its child, on the function expression.
\<close>

definition exampleC_text :: jsstring where
  "exampleC_text =
     [0x28, 0x66, 0x75, 0x6E, 0x63, 0x74, 0x69, 0x6F, 0x6E, 0x20, 0x66, 0x28, 0x29, 0x7B, 0x7D, 0x29]"

definition exampleC_program :: node where
  "exampleC_program = Node ''Program'' (0, 16) None [] [] []"

definition exampleC_statement :: node where
  "exampleC_statement = Node ''ExpressionStatement'' (0, 16) (Some exampleC_program) [] [] []"

definition exampleC_function :: node where
  "exampleC_function = Node ''FunctionExpression'' (1, 15) (Some exampleC_statement) [] [] []"

definition exampleC_body :: node where
  "exampleC_body = Node ''BlockStatement'' (13, 15) (Some exampleC_function) [(''body'', [])] [] []"

definition exampleC_ast :: node where
  "exampleC_ast =
     Node ''Program'' (0, 16) None
       [(''body'',
         [Some (Node ''ExpressionStatement'' (0, 16) (Some exampleC_program)
            [(''expression'',
              [Some (Node ''FunctionExpression'' (1, 15) (Some exampleC_statement)
                 [(''id'', [Some (Node ''Identifier'' (10, 11) (Some exampleC_function) [] [] [])]),
                  (''params'', []),
                  (''body'', [Some exampleC_body])] [] [])])] [] [])])]
       [\<lparr>ttype = ''Punctuator'', tvalue = [0x28], trange = (0, 1)\<rparr>,
        \<lparr>ttype = ''Keyword'', tvalue = [0x66, 0x75, 0x6E, 0x63, 0x74, 0x69, 0x6F, 0x6E],
         trange = (1, 9)\<rparr>,
        \<lparr>ttype = ''Identifier'', tvalue = [0x66], trange = (10, 11)\<rparr>,
        \<lparr>ttype = ''Punctuator'', tvalue = [0x28], trange = (11, 12)\<rparr>,
        \<lparr>ttype = ''Punctuator'', tvalue = [0x29], trange = (12, 13)\<rparr>,
        \<lparr>ttype = ''Punctuator'', tvalue = [0x7B], trange = (13, 14)\<rparr>,
        \<lparr>ttype = ''Punctuator'', tvalue = [0x7D], trange = (14, 15)\<rparr>,
        \<lparr>ttype = ''Punctuator'', tvalue = [0x29], trange = (15, 16)\<rparr>]
       []"

definition exampleC_functionScope :: scope where
  "exampleC_functionScope = Scope ''function'' []"

definition exampleC_nameScope :: scope where
  "exampleC_nameScope = Scope ''function-expression-name'' [exampleC_functionScope]"

definition exampleC_globalScope :: scope where
  "exampleC_globalScope = Scope ''global'' [exampleC_nameScope]"

definition exampleC_manager :: scope_manager where
  "exampleC_manager =
     \<lparr>acquire = (\<lambda>node inner.
                   if ntype node = ''Program'' then Some exampleC_globalScope
                   else if ntype node = ''FunctionExpression'' then Some exampleC_nameScope
                   else None),
      scopes = [exampleC_globalScope, exampleC_nameScope, exampleC_functionScope]\<rparr>"

definition exampleC :: source_code where
  "exampleC = SourceCode exampleKeys
     \<lparr>cfg_text = exampleC_text, cfg_ast = exampleC_ast,
      cfg_scopeManager = Some exampleC_manager, cfg_visitorKeys = None\<rparr>"

theorem C9_getScope_witness:
  "scopeManager exampleC = Some exampleC_manager \<and>
   fst (getScope exampleC (\<lambda>n. None) (Some exampleC_body)) = Inr (Some exampleC_functionScope) \<and>
   fst (getScope exampleC (\<lambda>n. None) (Some exampleC_statement)) = Inr (Some exampleC_globalScope) \<and>
   parentChain exampleC_body =
     [] @ exampleC_body # [exampleC_function, exampleC_statement, exampleC_program] \<and>
   acquire exampleC_manager exampleC_body (ntype exampleC_body \<noteq> ''Program'') = None \<and>
   acquire exampleC_manager exampleC_function (ntype exampleC_body \<noteq> ''Program'') =
     Some exampleC_nameScope"
proof -
  have m: "scopeManager exampleC = Some exampleC_manager"
    by (simp add: exampleC_def SourceCode_scopeManager)
  have c: "\<forall>n s. (\<lambda>n. None :: scope option) n = Some s \<longrightarrow> scopeOf exampleC_manager n = Some s"
    by simp
  have chain: "parentChain exampleC_body =
     [exampleC_body, exampleC_function, exampleC_statement, exampleC_program]"
    by (simp add: exampleC_body_def exampleC_function_def exampleC_statement_def
          exampleC_program_def)
  have s1: "scopeOf exampleC_manager exampleC_body = Some exampleC_functionScope"
    unfolding scopeOf_def chain
    by (simp add: List.map_filter_simps exampleC_manager_def exampleC_body_def
          exampleC_function_def exampleC_statement_def exampleC_program_def
          exampleC_nameScope_def index0_def)
  have chain2: "parentChain exampleC_statement = [exampleC_statement, exampleC_program]"
    by (simp add: exampleC_statement_def exampleC_program_def)
  have s2: "scopeOf exampleC_manager exampleC_statement = Some exampleC_globalScope"
    unfolding scopeOf_def chain2
    by (simp add: List.map_filter_simps exampleC_manager_def exampleC_statement_def
          exampleC_program_def exampleC_globalScope_def)
  from C9_getScope[OF m c, of exampleC_body] C9_getScope[OF m c, of exampleC_statement]
    m chain s1 s2
  show ?thesis
    by (simp add: exampleC_manager_def exampleC_body_def exampleC_function_def)
qed

section \<open>isSpaceBetween\<close>

text \<open>\<open>/\\s/u\<close>: the white space and line terminator code units of the language.\<close>

definition isWhiteSpace :: "16 word \<Rightarrow> bool" where
  "isWhiteSpace c =
     (c = 0x0009 \<or> c = 0x000A \<or> c = 0x000B \<or> c = 0x000C \<or> c = 0x000D \<or> c = 0x0020 \<or>
      c = 0x00A0 \<or> c = 0x1680 \<or> (0x2000 \<le> c \<and> c \<le> 0x200A) \<or> c = 0x2028 \<or>
      c = 0x2029 \<or> c = 0x202F \<or> c = 0x205F \<or> c = 0x3000 \<or> c = 0xFEFF)"

definition nodesOrTokensOverlap :: "node_or_token \<Rightarrow> node_or_token \<Rightarrow> bool" where
  "nodesOrTokensOverlap first second =
     ((fst (rangeOf first) \<le> fst (rangeOf second) \<and> snd (rangeOf first) \<ge> fst (rangeOf second)) \<or>
      (fst (rangeOf second) \<le> fst (rangeOf first) \<and> snd (rangeOf second) \<ge> fst (rangeOf first)))"


text \<open>
  The \<open>while\<close> loop of \<open>isSpaceBetween\<close>. Nothing in the source bounds it: it ends when
  the walk reaches \<open>finalToken\<close>, finds a gap, or runs off the stream, where
  \<open>nextToken\<close> is \<open>null\<close> and reading its range is a \<open>TypeError\<close> of the language. The
  result \<open>None\<close> is a walk that never ends. The current token is a node when the
  starting node covers no token.
\<close>

partial_function (option) isSpaceBetween_loop ::
  "source_code \<Rightarrow> bool \<Rightarrow> node_or_token \<Rightarrow> node_or_token \<Rightarrow> (error + bool) option" where
  "isSpaceBetween_loop sourceCode checkInsideOfJSXText finalToken currentToken =
     (if currentToken \<noteq> finalToken then
        (case getTokenAfter sourceCode currentToken True of
           None \<Rightarrow> Some (Inl TypeError)
         | Some nextToken \<Rightarrow>
             if snd (rangeOf currentToken) \<noteq> fst (trange nextToken) \<or>
                (checkInsideOfJSXText \<and>
                 AToken nextToken \<noteq> finalToken \<and>
                 ttype nextToken = ''JSXText'' \<and>
                 (\<exists>c\<in>set (tvalue nextToken). isWhiteSpace c))
             then Some (Inr True)
             else isSpaceBetween_loop sourceCode checkInsideOfJSXText finalToken
                    (AToken nextToken))
      else Some (Inr False))"


text \<open>\<open>found || fallback\<close>, for the token a navigation method found or \<open>null\<close>.\<close>

definition orElse :: "token option \<Rightarrow> node_or_token \<Rightarrow> node_or_token" where
  "orElse found fallback = (case found of Some t \<Rightarrow> AToken t | None \<Rightarrow> fallback)"

definition isSpaceBetween ::
  "source_code \<Rightarrow> node_or_token \<Rightarrow> node_or_token \<Rightarrow> bool \<Rightarrow> (error + bool) option" where
  "isSpaceBetween sourceCode first second checkInsideOfJSXText =
     (if nodesOrTokensOverlap first second then Some (Inr False)
      else
        (let (startingNodeOrToken, endingNodeOrToken) =
               (if snd (rangeOf first) \<le> fst (rangeOf second)
                then (first, second) else (second, first));
             firstToken = orElse (getLastToken sourceCode startingNodeOrToken) startingNodeOrToken;
             finalToken = orElse (getFirstToken sourceCode endingNodeOrToken) endingNodeOrToken
         in isSpaceBetween_loop sourceCode checkInsideOfJSXText finalToken firstToken))"


text \<open>The two public methods.\<close>

definition SourceCode_isSpaceBetween ::
  "source_code \<Rightarrow> node_or_token \<Rightarrow> node_or_token \<Rightarrow> (error + bool) option" where
  "SourceCode_isSpaceBetween this first second = isSpaceBetween this first second False"

definition isSpaceBetweenTokens ::
  "source_code \<Rightarrow> node_or_token \<Rightarrow> node_or_token \<Rightarrow> (error + bool) option" where
  "isSpaceBetweenTokens this first second = isSpaceBetween this first second True"


subsection \<open>Symmetry\<close>

text \<open>
  C6 speaks of ranges that intersect or touch at a boundary: the closed intervals meet.
\<close>

definition rangesMeet :: "int \<times> int \<Rightarrow> int \<times> int \<Rightarrow> bool" where
  "rangesMeet a b = (max (fst a) (fst b) \<le> min (snd a) (snd b))"

lemma nodesOrTokensOverlap_commute:
  "nodesOrTokensOverlap a b = nodesOrTokensOverlap b a"
  by (auto simp: nodesOrTokensOverlap_def)


text \<open>
  C6: for nodes or tokens \<open>a\<close> and \<open>b\<close> with well-formed ranges (start at most end),
  \<open>nodesOrTokensOverlap\<close> says exactly that the ranges intersect or touch;
  \<open>isSpaceBetween(a, b)\<close> and \<open>isSpaceBetween(b, a)\<close> have the same outcome, with either
  value of the JSXText flag and whatever the navigation methods do; and when the ranges
  intersect or touch, both calls return \<open>false\<close>.
\<close>

theorem C6_isSpaceBetween_symmetric:
  assumes wa: "fst (rangeOf a) \<le> snd (rangeOf a)" and wb: "fst (rangeOf b) \<le> snd (rangeOf b)"
  shows "nodesOrTokensOverlap a b = rangesMeet (rangeOf a) (rangeOf b) \<and>
         isSpaceBetween sourceCode a b checkInsideOfJSXText =
           isSpaceBetween sourceCode b a checkInsideOfJSXText \<and>
         SourceCode_isSpaceBetween sourceCode a b = SourceCode_isSpaceBetween sourceCode b a \<and>
         (rangesMeet (rangeOf a) (rangeOf b) \<longrightarrow>
            isSpaceBetween sourceCode a b checkInsideOfJSXText = Some (Inr False) \<and>
            isSpaceBetween sourceCode b a checkInsideOfJSXText = Some (Inr False))"
proof -
  have meet: "nodesOrTokensOverlap a b = rangesMeet (rangeOf a) (rangeOf b)"
    using wa wb by (auto simp: nodesOrTokensOverlap_def rangesMeet_def)
  have sym: "isSpaceBetween sourceCode a b flag = isSpaceBetween sourceCode b a flag" for flag
  proof (cases "nodesOrTokensOverlap a b")
    case True
    then show ?thesis
      by (simp add: isSpaceBetween_def nodesOrTokensOverlap_commute[of b a])
  next
    case False
    then have "snd (rangeOf a) \<le> fst (rangeOf b) \<longleftrightarrow> \<not> snd (rangeOf b) \<le> fst (rangeOf a)"
      using wa wb by (auto simp: nodesOrTokensOverlap_def)
    with False show ?thesis
      by (simp add: isSpaceBetween_def nodesOrTokensOverlap_commute[of b a])
  qed
  have over: "isSpaceBetween sourceCode a b flag = Some (Inr False)"
    if "nodesOrTokensOverlap a b" for flag
    using that by (simp add: isSpaceBetween_def)
  from meet sym over show ?thesis
    by (auto simp: SourceCode_isSpaceBetween_def)
qed

theorem C6_isSpaceBetween_symmetric_witness:
  "fst (rangeOf (AToken \<lparr>ttype = ''Identifier'', tvalue = [0x61], trange = (0, 1)\<rparr>))
     \<le> snd (rangeOf (AToken \<lparr>ttype = ''Identifier'', tvalue = [0x61], trange = (0, 1)\<rparr>)) \<and>
   fst (rangeOf (AToken \<lparr>ttype = ''Identifier'', tvalue = [0x62], trange = (5, 6)\<rparr>))
     \<le> snd (rangeOf (AToken \<lparr>ttype = ''Identifier'', tvalue = [0x62], trange = (5, 6)\<rparr>)) \<and>
   isSpaceBetween exampleA
     (AToken \<lparr>ttype = ''Identifier'', tvalue = [0x61], trange = (0, 1)\<rparr>)
     (AToken \<lparr>ttype = ''Identifier'', tvalue = [0x62], trange = (5, 6)\<rparr>) False = Some (Inr True) \<and>
   isSpaceBetween exampleA
     (AToken \<lparr>ttype = ''Identifier'', tvalue = [0x62], trange = (5, 6)\<rparr>)
     (AToken \<lparr>ttype = ''Identifier'', tvalue = [0x61], trange = (0, 1)\<rparr>) False = Some (Inr True) \<and>
   rangesMeet (rangeOf (AToken \<lparr>ttype = ''Identifier'', tvalue = [0x61], trange = (0, 1)\<rparr>))
     (rangeOf (AToken \<lparr>ttype = ''Line'', tvalue = [0x78], trange = (1, 4)\<rparr>)) \<and>
   isSpaceBetween exampleA
     (AToken \<lparr>ttype = ''Line'', tvalue = [0x78], trange = (1, 4)\<rparr>)
     (AToken \<lparr>ttype = ''Identifier'', tvalue = [0x61], trange = (0, 1)\<rparr>) False = Some (Inr False)"
proof -
  have ab: "isSpaceBetween exampleA
     (AToken \<lparr>ttype = ''Identifier'', tvalue = [0x61], trange = (0, 1)\<rparr>)
     (AToken \<lparr>ttype = ''Identifier'', tvalue = [0x62], trange = (5, 6)\<rparr>) False = Some (Inr True)"
    by (simp add: isSpaceBetween_def nodesOrTokensOverlap_def exampleA_store exampleA_stream
          exampleA_ast_def insideRange_def orElse_def isSpaceBetween_loop.simps)
  from C6_isSpaceBetween_symmetric[of
      "AToken \<lparr>ttype = ''Identifier'', tvalue = [0x61], trange = (0, 1)\<rparr>"
      "AToken \<lparr>ttype = ''Identifier'', tvalue = [0x62], trange = (5, 6)\<rparr>" exampleA False]
    C6_isSpaceBetween_symmetric[of
      "AToken \<lparr>ttype = ''Identifier'', tvalue = [0x61], trange = (0, 1)\<rparr>"
      "AToken \<lparr>ttype = ''Line'', tvalue = [0x78], trange = (1, 4)\<rparr>" exampleA False]
    ab
  show ?thesis by (simp add: rangesMeet_def)
qed

subsection \<open>The walk ends\<close>

text \<open>
  On a constructed object whose tokens and comments have non-empty ranges, each step of
  the walk moves to an entry that starts at or after the end of the current one, so the
  loop ends and \<open>isSpaceBetween\<close> returns.
\<close>

lemma isSpaceBetween_loop_returns:
  assumes after: "\<And>x. getTokenAfter sourceCode x True =
                     List.find (\<lambda>t. snd (rangeOf x) \<le> fst (trange t)) stream"
    and nonempty: "\<forall>t\<in>set stream. fst (trange t) < snd (trange t)"
  shows "\<exists>r. isSpaceBetween_loop sourceCode flag finalToken currentToken = Some r"
proof (induction "length (filter (\<lambda>x. snd (rangeOf currentToken) \<le> fst (trange x)) stream)"
       arbitrary: currentToken rule: less_induct)
  case less
  show ?case
  proof (cases "currentToken = finalToken")
    case True
    then show ?thesis by (subst isSpaceBetween_loop.simps) simp
  next
    case False
    show ?thesis
    proof (cases "getTokenAfter sourceCode currentToken True")
      case None
      with False show ?thesis by (subst isSpaceBetween_loop.simps) simp
    next
      case (Some e)
      then have e: "snd (rangeOf currentToken) \<le> fst (trange e)" "e \<in> set stream"
        using find_SomeD[of _ stream e] by (auto simp: after)
      with nonempty have ne: "fst (trange e) < snd (trange e)" by auto
      have "length (filter (\<lambda>x. snd (rangeOf (AToken e)) \<le> fst (trange x)) stream)
              < length (filter (\<lambda>x. snd (rangeOf currentToken) \<le> fst (trange x)) stream)"
        by (rule filter_length_less[where y = e]) (use e ne in auto)
      from less.hyps[OF this]
      obtain r where "isSpaceBetween_loop sourceCode flag finalToken (AToken e) = Some r" by auto
      with False Some show ?thesis by (subst isSpaceBetween_loop.simps) auto
    qed
  qed
qed

lemma isSpaceBetween_returns:
  assumes "\<forall>t\<in>set (tokensAndComments (SourceCode dvk cfg)). fst (trange t) < snd (trange t)"
  shows "\<exists>r. isSpaceBetween (SourceCode dvk cfg) a b flag = Some r"
proof (cases "nodesOrTokensOverlap a b")
  case True
  then show ?thesis by (simp add: isSpaceBetween_def)
next
  case False
  with isSpaceBetween_loop_returns[of "SourceCode dvk cfg" "tokensAndComments (SourceCode dvk cfg)",
      OF SourceCode_navigation(3) assms]
  show ?thesis by (simp add: isSpaceBetween_def Let_def split: prod.splits)
qed

section \<open>getNodeByRangeIndex\<close>

text \<open>
  The children of a node in traversal order: for each visitor key of the node's type, in
  order, the nodes of that field; \<open>null\<close> entries are not nodes and are passed over.
\<close>

definition childNodes :: "(string \<Rightarrow> string list) \<Rightarrow> node \<Rightarrow> node list" where
  "childNodes keys node =
     concat (map (\<lambda>key. List.map_filter (\<lambda>child. child) (field node key)) (keys (ntype node)))"

lemma size_field_entry:
  "(key, children) \<in> set fs \<Longrightarrow> Some child \<in> set children \<Longrightarrow>
     size child < size (Node t r p fs tk cm)"
proof -
  assume a: "(key, children) \<in> set fs" and b: "Some child \<in> set children"
  from b have "size_option size (Some child) \<le> size_list (size_option size) children"
    by (rule size_list_estimation') simp
  then have c: "size child < size_list (size_option size) children" by simp
  from a have "size_prod (\<lambda>_. 0) (size_list (size_option size)) (key, children)
                 \<le> size_list (size_prod (\<lambda>_. 0) (size_list (size_option size))) fs"
    by (rule size_list_estimation') simp
  with c show ?thesis by simp
qed

lemma size_childNodes:
  "child \<in> set (childNodes keys node) \<Longrightarrow> size child < size node"
proof -
  assume "child \<in> set (childNodes keys node)"
  then obtain key where k: "Some child \<in> set (field node key)"
    by (auto simp: childNodes_def List.map_filter_def)
  then obtain children where "map_of (nfields node) key = Some children"
    "Some child \<in> set children"
    by (cases "map_of (nfields node) key") (auto simp: field_def)
  then have "(key, children) \<in> set (nfields node)" by (auto dest: map_of_SomeD)
  with \<open>Some child \<in> set children\<close> show ?thesis
    by (cases node) (auto dest: size_field_entry)
qed


text \<open>
  Modelled from the spec: \<open>Traverser.traverse\<close> (\<open>../shared/traverser\<close> is not under
  src/), the tree-traversal utility with a per-node-type child-key mapping: a depth-first
  walk that calls \<open>enter\<close> on a node before its children and \<open>leave\<close> after them. The
  callbacks run with the traverser as \<open>this\<close>: \<open>this.skip()\<close> in \<open>enter\<close> prunes the
  children of the current node, \<open>this.break()\<close> ends the whole walk, and no callback runs
  once the walk is broken. The state is the visitor's own variable and the two flags.
\<close>

record 'v traversal =
  visitorState :: 'v
  skipped :: bool
  broken :: bool

function Traverser_traverse ::
  "(string \<Rightarrow> string list) \<Rightarrow> (node \<Rightarrow> 'v traversal \<Rightarrow> 'v traversal) \<Rightarrow>
   (node \<Rightarrow> 'v traversal \<Rightarrow> 'v traversal) \<Rightarrow> node \<Rightarrow> 'v traversal \<Rightarrow> 'v traversal" where
  "Traverser_traverse keys enter leave node s =
     (let entered = enter node (s\<lparr>skipped := False\<rparr>);
          visited =
            (if \<not> skipped entered \<and> \<not> broken entered
             then fold (\<lambda>child st.
                          if broken st then st
                          else Traverser_traverse keys enter leave child st)
                    (childNodes keys node) entered
             else entered)
      in if \<not> broken visited then leave node visited else visited)"
  by pat_completeness auto
termination
  by (relation "measure (\<lambda>(keys, enter, leave, node, s). size node)")
     (auto dest: size_childNodes)

declare Traverser_traverse.simps [simp del]


text \<open>
  The two callbacks of \<open>getNodeByRangeIndex\<close>; the visitor's variable is \<open>result\<close>.
\<close>

definition getNodeByRangeIndex_enter :: "int \<Rightarrow> node \<Rightarrow> node option traversal \<Rightarrow> node option traversal" where
  "getNodeByRangeIndex_enter index node s =
     (if fst (nrange node) \<le> index \<and> index < snd (nrange node)
      then s\<lparr>visitorState := Some node\<rparr> else s\<lparr>skipped := True\<rparr>)"

definition getNodeByRangeIndex_leave :: "node \<Rightarrow> node option traversal \<Rightarrow> node option traversal" where
  "getNodeByRangeIndex_leave node s = (if Some node = visitorState s then s\<lparr>broken := True\<rparr> else s)"

definition getNodeByRangeIndex :: "source_code \<Rightarrow> int \<Rightarrow> node option" where
  "getNodeByRangeIndex this index =
     visitorState
       (Traverser_traverse (visitorKeys this)
          (getNodeByRangeIndex_enter index) getNodeByRangeIndex_leave
          (ast this)
          \<lparr>visitorState = None, skipped = False, broken = False\<rparr>)"

subsection \<open>The deepest node at an offset\<close>

text \<open>
  The words of C7: a node contains an offset of its half-open range; the descendants of a
  node are its children and theirs; in a well-formed tree the range of a child lies
  within the range of its parent.
\<close>

definition containsIndex :: "node \<Rightarrow> int \<Rightarrow> bool" where
  "containsIndex node index = (fst (nrange node) \<le> index \<and> index < snd (nrange node))"

function descendants :: "(string \<Rightarrow> string list) \<Rightarrow> node \<Rightarrow> node list" where
  "descendants keys node =
     concat (map (\<lambda>child. child # descendants keys child) (childNodes keys node))"
  by pat_completeness auto
termination
  by (relation "measure (\<lambda>(keys, node). size node)") (auto dest: size_childNodes)

function rangesNest :: "(string \<Rightarrow> string list) \<Rightarrow> node \<Rightarrow> bool" where
  "rangesNest keys node =
     list_all (\<lambda>child. fst (nrange node) \<le> fst (nrange child) \<and>
                        snd (nrange child) \<le> snd (nrange node) \<and>
                        rangesNest keys child)
       (childNodes keys node)"
  by pat_completeness auto
termination
  by (relation "measure (\<lambda>(keys, node). size node)") (auto dest: size_childNodes)

declare descendants.simps [simp del] rangesNest.simps [simp del]

lemma descendants_iff:
  "d \<in> set (descendants keys node) \<longleftrightarrow>
     (\<exists>child\<in>set (childNodes keys node). d = child \<or> d \<in> set (descendants keys child))"
  by (subst descendants.simps) auto

lemma rangesNest_child:
  "rangesNest keys node \<Longrightarrow> child \<in> set (childNodes keys node) \<Longrightarrow>
     fst (nrange node) \<le> fst (nrange child) \<and> snd (nrange child) \<le> snd (nrange node) \<and>
     rangesNest keys child"
  by (subst (asm) rangesNest.simps) (auto simp: list_all_iff)

lemma rangesNest_descendant:
  "rangesNest keys node \<Longrightarrow> d \<in> set (descendants keys node) \<Longrightarrow>
     fst (nrange node) \<le> fst (nrange d) \<and> snd (nrange d) \<le> snd (nrange node) \<and>
     rangesNest keys d"
proof (induction keys node arbitrary: d rule: descendants.induct)
  case (1 keys node)
  from "1.prems"(2) obtain child where c: "child \<in> set (childNodes keys node)"
    and d: "d = child \<or> d \<in> set (descendants keys child)"
    by (auto simp: descendants_iff[of d keys node])
  from rangesNest_child[OF "1.prems"(1) c]
  have n: "fst (nrange node) \<le> fst (nrange child)" "snd (nrange child) \<le> snd (nrange node)"
    "rangesNest keys child" by auto
  from d show ?case
  proof
    assume "d = child"
    with n show ?thesis by simp
  next
    assume "d \<in> set (descendants keys child)"
    from "1.IH"[OF c n(3) this] n show ?thesis by auto
  qed
qed

lemma descendants_trans:
  "d \<in> set (descendants keys c) \<Longrightarrow> c \<in> set (descendants keys node) \<Longrightarrow>
     d \<in> set (descendants keys node)"
proof (induction keys node arbitrary: c rule: descendants.induct)
  case (1 keys node)
  from "1.prems"(2) obtain child where ch: "child \<in> set (childNodes keys node)"
    and c: "c = child \<or> c \<in> set (descendants keys child)"
    by (auto simp: descendants_iff[of c keys node])
  from c have "d \<in> set (descendants keys child)"
  proof
    assume "c = child" with "1.prems"(1) show ?thesis by simp
  next
    assume "c \<in> set (descendants keys child)"
    from "1.IH"[OF ch "1.prems"(1) this] show ?thesis .
  qed
  with ch show ?case by (auto simp: descendants_iff[of d keys node])
qed
lemma fold_broken:
  "broken st \<Longrightarrow> fold (\<lambda>child st. if broken st then st else f child st) cs st = st"
  by (induction cs) auto

definition deepestAt :: "(string \<Rightarrow> string list) \<Rightarrow> int \<Rightarrow> node \<Rightarrow> node \<Rightarrow> bool" where
  "deepestAt keys index node r =
     ((r = node \<or> r \<in> set (descendants keys node)) \<and> containsIndex r index \<and>
      (\<forall>c\<in>set (childNodes keys r). \<not> containsIndex c index))"

lemma traverse_range:
  assumes "enter = getNodeByRangeIndex_enter index" and "leave = getNodeByRangeIndex_leave"
    and "\<not> broken s" and "\<forall>r. visitorState s = Some r \<longrightarrow> containsIndex r index"
  shows "(\<not> containsIndex node index \<longrightarrow>
            visitorState (Traverser_traverse keys enter leave node s) = visitorState s \<and>
            \<not> broken (Traverser_traverse keys enter leave node s)) \<and>
         (containsIndex node index \<longrightarrow>
            broken (Traverser_traverse keys enter leave node s) \<and>
            (\<exists>r. visitorState (Traverser_traverse keys enter leave node s) = Some r \<and>
                 deepestAt keys index node r))"
  using assms
proof (induction keys enter leave node s rule: Traverser_traverse.induct)
  case (1 keys enter leave node s)
  let ?F = "\<lambda>child st. if broken st then st else Traverser_traverse keys enter leave child st"
  note el = "1.prems"(1,2)
  show ?case
  proof (cases "containsIndex node index")
    case False
    then have "Traverser_traverse keys enter leave node s = s\<lparr>skipped := True\<rparr>"
      using "1.prems"
      by (subst Traverser_traverse.simps)
         (auto simp: getNodeByRangeIndex_enter_def getNodeByRangeIndex_leave_def containsIndex_def Let_def)
    with False "1.prems" show ?thesis by simp
  next
    case True
    define entered where "entered = enter node (s\<lparr>skipped := False\<rparr>)"
    from True el have entered: "entered = s\<lparr>skipped := False, visitorState := Some node\<rparr>"
      by (simp add: entered_def getNodeByRangeIndex_enter_def containsIndex_def)
    then have go: "\<not> skipped entered \<and> \<not> broken entered"
      using "1.prems"(3) by simp
    have IH: "\<And>child st. child \<in> set (childNodes keys node) \<Longrightarrow> \<not> broken st \<Longrightarrow>
        \<forall>r. visitorState st = Some r \<longrightarrow> containsIndex r index \<Longrightarrow>
        (\<not> containsIndex child index \<longrightarrow>
            visitorState (Traverser_traverse keys enter leave child st) = visitorState st \<and>
            \<not> broken (Traverser_traverse keys enter leave child st)) \<and>
        (containsIndex child index \<longrightarrow>
            broken (Traverser_traverse keys enter leave child st) \<and>
            (\<exists>r. visitorState (Traverser_traverse keys enter leave child st) = Some r \<and>
                 deepestAt keys index child r))"
      using "1.IH"[OF entered_def go] el by blast
    have folded: "set cs \<subseteq> set (childNodes keys node) \<Longrightarrow> \<not> broken st \<Longrightarrow>
        visitorState st = Some node \<Longrightarrow>
        ((\<forall>c\<in>set cs. \<not> containsIndex c index) \<longrightarrow>
            visitorState (fold ?F cs st) = Some node \<and> \<not> broken (fold ?F cs st)) \<and>
        ((\<exists>c\<in>set cs. containsIndex c index) \<longrightarrow>
            broken (fold ?F cs st) \<and>
            (\<exists>r c. visitorState (fold ?F cs st) = Some r \<and> c \<in> set cs \<and>
                   deepestAt keys index c r))" for cs st
    proof (induction cs arbitrary: st)
      case Nil
      then show ?case by simp
    next
      case (Cons c cs)
      from Cons.prems have cin: "c \<in> set (childNodes keys node)" by simp
      from Cons.prems True have inv: "\<forall>r. visitorState st = Some r \<longrightarrow> containsIndex r index"
        by simp
      let ?st1 = "Traverser_traverse keys enter leave c st"
      from Cons.prems have step: "fold ?F (c # cs) st = fold ?F cs ?st1" by simp
      show ?case
      proof (cases "containsIndex c index")
        case False
        with IH[OF cin Cons.prems(2) inv]
        have s1: "visitorState ?st1 = Some node" "\<not> broken ?st1"
          using Cons.prems(3) by simp_all
        from Cons.prems(1) have sub: "set cs \<subseteq> set (childNodes keys node)" by simp
        from Cons.IH[OF sub s1(2) s1(1)] False show ?thesis
          unfolding step by auto
      next
        case True
        with IH[OF cin Cons.prems(2) inv]
        obtain r where s1: "broken ?st1" "visitorState ?st1 = Some r" "deepestAt keys index c r"
          by auto
        from s1(1) have "fold ?F cs ?st1 = ?st1" by (rule fold_broken)
        with s1 True show ?thesis unfolding step by auto
      qed
    qed
    define visited where "visited = fold ?F (childNodes keys node) entered"
    have res: "Traverser_traverse keys enter leave node s =
                 (if \<not> broken visited then leave node visited else visited)"
      using go by (subst Traverser_traverse.simps)
                  (simp add: Let_def entered_def[symmetric] visited_def)
    from entered "1.prems"(3) have e2: "\<not> broken entered" "visitorState entered = Some node"
      by simp_all
    note f = folded[OF subset_refl e2, folded visited_def]
    show ?thesis
    proof (cases "\<exists>c\<in>set (childNodes keys node). containsIndex c index")
      case False
      with f have v: "visitorState visited = Some node" "\<not> broken visited" by auto
      with res el have "Traverser_traverse keys enter leave node s = visited\<lparr>broken := True\<rparr>"
        by (simp add: getNodeByRangeIndex_leave_def)
      with v True False show ?thesis by (auto simp: deepestAt_def)
    next
      case ex: True
      with f obtain r c where v: "broken visited" "visitorState visited = Some r"
        "c \<in> set (childNodes keys node)" "deepestAt keys index c r" by auto
      from v(3,4) have "deepestAt keys index node r"
        by (auto simp: deepestAt_def descendants_iff[of r keys node])
      with res v True show ?thesis by auto
    qed
  qed
qed

lemma outside_descendants:
  assumes "rangesNest keys n" and "\<not> containsIndex n index" and "d \<in> set (descendants keys n)"
  shows "\<not> containsIndex d index"
  using rangesNest_descendant[OF assms(1,3)] assms(2) by (auto simp: containsIndex_def)

lemma deepest_descendants:
  assumes "rangesNest keys r" and "\<forall>c\<in>set (childNodes keys r). \<not> containsIndex c index"
    and "d \<in> set (descendants keys r)"
  shows "\<not> containsIndex d index"
proof -
  from assms(3) obtain c where c: "c \<in> set (childNodes keys r)"
    and dc: "d = c \<or> d \<in> set (descendants keys c)"
    by (auto simp: descendants_iff[of d keys r])
  from assms(2) c have nc: "\<not> containsIndex c index" by simp
  from rangesNest_child[OF assms(1) c] have "rangesNest keys c" by simp
  from dc nc outside_descendants[OF this nc] show ?thesis by auto
qed


text \<open>
  C7: \<open>getNodeByRangeIndex(index)\<close> returns a node of the tree whose half-open range
  contains the index and none of whose children contains it, or \<open>null\<close> when the root
  does not contain the index. In a tree whose child ranges lie within their parents'
  ranges, which the spec takes as given, none of the descendants of the returned node
  contains the index either, and \<open>null\<close> means that no node of the tree contains it.
\<close>

theorem C7_deepest_node:
  "case getNodeByRangeIndex this index of
     Some n \<Rightarrow>
       (n = ast this \<or> n \<in> set (descendants (visitorKeys this) (ast this))) \<and>
       containsIndex n index \<and>
       (\<forall>c\<in>set (childNodes (visitorKeys this) n). \<not> containsIndex c index) \<and>
       (rangesNest (visitorKeys this) (ast this) \<longrightarrow>
          (\<forall>d\<in>set (descendants (visitorKeys this) n). \<not> containsIndex d index))
   | None \<Rightarrow>
       \<not> containsIndex (ast this) index \<and>
       (rangesNest (visitorKeys this) (ast this) \<longrightarrow>
          (\<forall>d\<in>set (descendants (visitorKeys this) (ast this)). \<not> containsIndex d index))"
proof -
  let ?keys = "visitorKeys this"
  let ?s0 = "\<lparr>visitorState = None :: node option, skipped = False, broken = False\<rparr>"
  let ?end = "Traverser_traverse ?keys (getNodeByRangeIndex_enter index)
                getNodeByRangeIndex_leave (ast this) ?s0"
  have res: "getNodeByRangeIndex this index = visitorState ?end"
    by (simp add: getNodeByRangeIndex_def)
  from traverse_range[of "getNodeByRangeIndex_enter index" index getNodeByRangeIndex_leave
        ?s0 "ast this" ?keys]
  have tr: "(\<not> containsIndex (ast this) index \<longrightarrow> visitorState ?end = None) \<and>
            (containsIndex (ast this) index \<longrightarrow>
               (\<exists>r. visitorState ?end = Some r \<and> deepestAt ?keys index (ast this) r))"
    by simp
  show ?thesis
  proof (cases "containsIndex (ast this) index")
    case False
    with tr outside_descendants[of ?keys "ast this" index] show ?thesis
      by (auto simp: res)
  next
    case True
    with tr obtain r where r: "visitorState ?end = Some r" "deepestAt ?keys index (ast this) r"
      by auto
    from r(2) have mem: "r = ast this \<or> r \<in> set (descendants ?keys (ast this))"
      and con: "containsIndex r index"
      and kids: "\<forall>c\<in>set (childNodes ?keys r). \<not> containsIndex c index"
      by (auto simp: deepestAt_def)
    have "\<forall>d\<in>set (descendants ?keys r). \<not> containsIndex d index"
      if nest: "rangesNest ?keys (ast this)"
    proof -
      from mem nest have "rangesNest ?keys r"
        using rangesNest_descendant by blast
      with kids show ?thesis using deepest_descendants by blast
    qed
    with r(1) mem con kids show ?thesis by (simp add: res)
  qed
qed


lemma rangesNest_leaf: "childNodes keys node = [] \<Longrightarrow> rangesNest keys node"
  by (subst rangesNest.simps) simp

lemma exampleA_nest: "rangesNest exampleKeys exampleA_ast"
  apply (subst rangesNest.simps)
  apply (simp add: exampleA_ast_def childNodes_def field_def exampleKeys_def List.map_filter_simps)
  apply (intro conjI)
   apply (subst rangesNest.simps)
   apply (simp add: childNodes_def field_def exampleKeys_def List.map_filter_simps
          exampleA_a_def exampleA_b_def)
   apply (rule rangesNest_leaf)
   apply (simp add: childNodes_def field_def exampleKeys_def List.map_filter_simps
          exampleA_a_def exampleA_b_def)
  apply (subst rangesNest.simps)
  apply (simp add: childNodes_def field_def exampleKeys_def List.map_filter_simps
          exampleA_a_def exampleA_b_def)
  apply (rule rangesNest_leaf)
  apply (simp add: childNodes_def field_def exampleKeys_def List.map_filter_simps
          exampleA_a_def exampleA_b_def)
  done

lemma exampleA_at5:
  "getNodeByRangeIndex exampleA 5 = Some exampleA_b"
  by (simp add: getNodeByRangeIndex_def exampleA_ast' exampleA_visitorKeys exampleA_ast_def
        Traverser_traverse.simps childNodes_def field_def exampleKeys_def List.map_filter_simps
        getNodeByRangeIndex_enter_def getNodeByRangeIndex_leave_def Let_def
        exampleA_a_def exampleA_b_def)

lemma exampleA_at4: "getNodeByRangeIndex exampleA 4 = Some exampleA_ast"
  by (simp add: getNodeByRangeIndex_def exampleA_ast' exampleA_visitorKeys exampleA_ast_def
        Traverser_traverse.simps childNodes_def field_def exampleKeys_def List.map_filter_simps
        getNodeByRangeIndex_enter_def getNodeByRangeIndex_leave_def Let_def
        exampleA_a_def exampleA_b_def)

lemma exampleA_at9: "getNodeByRangeIndex exampleA 9 = None"
  by (simp add: getNodeByRangeIndex_def exampleA_ast' exampleA_visitorKeys exampleA_ast_def
        Traverser_traverse.simps childNodes_def field_def exampleKeys_def List.map_filter_simps
        getNodeByRangeIndex_enter_def getNodeByRangeIndex_leave_def Let_def
        exampleA_a_def exampleA_b_def)

theorem C7_deepest_node_witness:
  "rangesNest (visitorKeys exampleA) (ast exampleA) \<and>
   getNodeByRangeIndex exampleA 5 = Some exampleA_b \<and>
   containsIndex exampleA_b 5 \<and>
   getNodeByRangeIndex exampleA 4 = Some (ast exampleA) \<and>
   getNodeByRangeIndex exampleA 9 = None \<and>
   \<not> containsIndex (ast exampleA) 9"
proof -
  have nest: "rangesNest (visitorKeys exampleA) (ast exampleA)"
    by (simp add: exampleA_ast' exampleA_visitorKeys exampleA_nest)
  from C7_deepest_node[of exampleA 5] C7_deepest_node[of exampleA 9] nest
  show ?thesis
    by (simp add: exampleA_at5 exampleA_at4 exampleA_at9 exampleA_ast')
qed

section \<open>getComments\<close>

text \<open>The object \<open>{leading, trailing}\<close> that \<open>getComments\<close> returns and caches.\<close>

record comments_result =
  leading :: "token list"
  trailing :: "token list"


text \<open>
  \<open>node[key].length === 0\<close>; reading the length of a field the node does not have is a
  \<open>TypeError\<close> of the language. \<open>onlyComments\<close> is the condition of the second \<open>if\<close>:
  each type test guards the read of its own field.
\<close>

definition lengthIsZero :: "node \<Rightarrow> string \<Rightarrow> error + bool" where
  "lengthIsZero node key =
     (case map_of (nfields node) key of
        None \<Rightarrow> Inl TypeError
      | Some xs \<Rightarrow> Inr (length xs = 0))"

definition onlyComments :: "node \<Rightarrow> error + bool" where
  "onlyComments node =
     (if ntype node = ''BlockStatement'' \<or> ntype node = ''ClassBody''
        then lengthIsZero node ''body''
      else if ntype node = ''ObjectExpression'' then lengthIsZero node ''properties''
      else if ntype node = ''ArrayExpression'' then lengthIsZero node ''elements''
      else if ntype node = ''SwitchStatement'' then lengthIsZero node ''cases''
      else Inr False)"


text \<open>
  The conditions of the two \<open>break\<close> statements: the node has a parent that is not the
  Program and the comment lies outside it. (\<open>start\<close> and \<open>end\<close> are the range.)
\<close>

definition outsideParentBefore :: "node \<Rightarrow> token \<Rightarrow> bool" where
  "outsideParentBefore node currentToken =
     (case nparent node of
        None \<Rightarrow> False
      | Some parent \<Rightarrow> ntype parent \<noteq> ''Program'' \<and> tstart currentToken < nstart parent)"

definition outsideParentAfter :: "node \<Rightarrow> token \<Rightarrow> bool" where
  "outsideParentAfter node currentToken =
     (case nparent node of
        None \<Rightarrow> False
      | Some parent \<Rightarrow> ntype parent \<noteq> ''Program'' \<and> tend currentToken > nend parent)"


text \<open>
  The two \<open>while\<close> loops, walking the stream backwards from the node and forwards from
  it while the current token is a comment. \<open>None\<close> is a walk that never ends.
\<close>

partial_function (option) leading_loop ::
  "source_code \<Rightarrow> node \<Rightarrow> token option \<Rightarrow> token list \<Rightarrow> token list option" where
  "leading_loop this node currentToken acc =
     (case currentToken of
        None \<Rightarrow> Some acc
      | Some tok \<Rightarrow>
          if isCommentToken tok then
            (if outsideParentBefore node tok then Some acc
             else leading_loop this node (getTokenBefore this (AToken tok) True) (acc @ [tok]))
          else Some acc)"

partial_function (option) trailing_loop ::
  "source_code \<Rightarrow> node \<Rightarrow> token option \<Rightarrow> token list \<Rightarrow> token list option" where
  "trailing_loop this node currentToken acc =
     (case currentToken of
        None \<Rightarrow> Some acc
      | Some tok \<Rightarrow>
          if isCommentToken tok then
            (if outsideParentAfter node tok then Some acc
             else trailing_loop this node (getTokenAfter this (AToken tok) True) (acc @ [tok]))
          else Some acc)"


text \<open>
  \<open>getComments(node)\<close>, with \<open>_commentCache\<close> as state. The trailing array starts as the
  comments inside the node when the node can only contain comments, and the forward walk
  pushes onto it.
\<close>

definition getComments ::
  "source_code \<Rightarrow> (node \<rightharpoonup> comments_result) \<Rightarrow> node \<Rightarrow>
     ((error + comments_result) \<times> (node \<rightharpoonup> comments_result)) option" where
  "getComments this commentCache node =
     (case commentCache node of
        Some cached \<Rightarrow> Some (Inr cached, commentCache)
      | None \<Rightarrow>
          if ntype node = ''Program'' then
            (case lengthIsZero node ''body'' of
               Inl e \<Rightarrow> Some (Inl e, commentCache)
             | Inr noBody \<Rightarrow>
                 (let comments = \<lparr>leading = (if noBody then ncomments node else []),
                                  trailing = []\<rparr>
                  in Some (Inr comments, commentCache(node \<mapsto> comments))))
          else
            (case onlyComments node of
               Inl e \<Rightarrow> Some (Inl e, commentCache)
             | Inr only \<Rightarrow>
                 (case leading_loop this node (getTokenBefore this (ANode node) True) [] of
                    None \<Rightarrow> None
                  | Some lead \<Rightarrow>
                      (case trailing_loop this node (getTokenAfter this (ANode node) True)
                              (if only then getTokens this (ANode node) True isCommentToken
                               else []) of
                         None \<Rightarrow> None
                       | Some trail \<Rightarrow>
                           (let comments = \<lparr>leading = rev lead, trailing = trail\<rparr>
                            in Some (Inr comments, commentCache(node \<mapsto> comments)))))))"


subsection \<open>Comments inside a node without content\<close>

lemma set_merge_lists: "set (merge_lists ts cs) = set ts \<union> set cs"
  by (induction ts cs rule: merge_lists.induct) auto

lemma set_sortedMerge: "set (sortedMerge ts cs) = set ts \<union> set cs"
  by (simp add: sortedMerge_merge_lists set_merge_lists)

lemma leading_loop_result:
  assumes before: "\<And>x. getTokenBefore this x True =
                     List.find (\<lambda>t. snd (trange t) \<le> fst (rangeOf x)) (rev stream)"
    and nonempty: "\<forall>t\<in>set stream. fst (trange t) < snd (trange t)"
    and cur: "\<forall>tok. currentToken = Some tok \<longrightarrow> tok \<in> set stream \<and> snd (trange tok) \<le> bound"
    and acc: "\<forall>t\<in>set acc. snd (trange t) \<le> bound"
  shows "\<exists>r. leading_loop this node currentToken acc = Some r \<and>
             (\<forall>t\<in>set r. snd (trange t) \<le> bound)"
  using cur acc
proof (induction "case currentToken of None \<Rightarrow> 0
                  | Some tok \<Rightarrow> Suc (length (filter (\<lambda>x. fst (trange x) < fst (trange tok)) stream))"
       arbitrary: currentToken acc rule: less_induct)
  case less
  show ?case
  proof (cases currentToken)
    case None
    with less.prems show ?thesis by (subst leading_loop.simps) simp
  next
    case (Some tok)
    with less.prems have tok: "tok \<in> set stream" "snd (trange tok) \<le> bound" by auto
    show ?thesis
    proof (cases "isCommentToken tok \<and> \<not> outsideParentBefore node tok")
      case False
      with Some less.prems show ?thesis by (subst leading_loop.simps) auto
    next
      case True
      let ?next = "getTokenBefore this (AToken tok) True"
      have unfold: "leading_loop this node currentToken acc =
                      leading_loop this node ?next (acc @ [tok])"
        using Some True by (subst leading_loop.simps) simp
      have nextprops: "\<forall>e. ?next = Some e \<longrightarrow> e \<in> set stream \<and> snd (trange e) \<le> bound \<and>
                              fst (trange e) < fst (trange tok)"
      proof (intro allI impI)
        fix e assume "?next = Some e"
        then have "snd (trange e) \<le> fst (trange tok)" "e \<in> set stream"
          using find_SomeD[of _ "rev stream" e] by (auto simp: before)
        moreover from this nonempty have "fst (trange e) < snd (trange e)" by auto
        moreover from tok nonempty have "fst (trange tok) < snd (trange tok)" by auto
        ultimately show "e \<in> set stream \<and> snd (trange e) \<le> bound \<and>
                         fst (trange e) < fst (trange tok)"
          using tok by auto
      qed
      have smaller: "(case ?next of None \<Rightarrow> 0
                  | Some e \<Rightarrow> Suc (length (filter (\<lambda>x. fst (trange x) < fst (trange e)) stream)))
            < (case currentToken of None \<Rightarrow> 0
                  | Some tok \<Rightarrow> Suc (length (filter (\<lambda>x. fst (trange x) < fst (trange tok)) stream)))"
      proof (cases ?next)
        case None
        with Some show ?thesis by simp
      next
        case (Some e)
        with nextprops have e: "e \<in> set stream" "fst (trange e) < fst (trange tok)" by auto
        have "length (filter (\<lambda>x. fst (trange x) < fst (trange e)) stream)
                < length (filter (\<lambda>x. fst (trange x) < fst (trange tok)) stream)"
          by (rule filter_length_less[where y = e]) (use e in auto)
        with Some \<open>currentToken = Some tok\<close> show ?thesis by simp
      qed
      have "\<exists>r. leading_loop this node ?next (acc @ [tok]) = Some r \<and>
                (\<forall>t\<in>set r. snd (trange t) \<le> bound)"
        by (rule less.hyps[OF smaller]) (use nextprops less.prems tok in auto)
      with unfold show ?thesis by simp
    qed
  qed
qed
lemma trailing_loop_result:
  assumes after: "\<And>x. getTokenAfter this x True =
                     List.find (\<lambda>t. snd (rangeOf x) \<le> fst (trange t)) stream"
    and nonempty: "\<forall>t\<in>set stream. fst (trange t) < snd (trange t)"
    and cur: "\<forall>tok. currentToken = Some tok \<longrightarrow> tok \<in> set stream"
  shows "\<exists>r. trailing_loop this node currentToken acc = Some r \<and> set acc \<subseteq> set r"
  using cur
proof (induction "case currentToken of None \<Rightarrow> 0
                  | Some tok \<Rightarrow> Suc (length (filter (\<lambda>x. fst (trange tok) < fst (trange x)) stream))"
       arbitrary: currentToken acc rule: less_induct)
  case less
  show ?case
  proof (cases currentToken)
    case None
    then show ?thesis by (subst trailing_loop.simps) simp
  next
    case (Some tok)
    with less.prems have tok: "tok \<in> set stream" by auto
    show ?thesis
    proof (cases "isCommentToken tok \<and> \<not> outsideParentAfter node tok")
      case False
      with Some show ?thesis by (subst trailing_loop.simps) auto
    next
      case True
      let ?next = "getTokenAfter this (AToken tok) True"
      have unfold: "trailing_loop this node currentToken acc =
                      trailing_loop this node ?next (acc @ [tok])"
        using Some True by (subst trailing_loop.simps) simp
      have nextprops: "\<forall>e. ?next = Some e \<longrightarrow> e \<in> set stream \<and>
                              fst (trange tok) < fst (trange e)"
      proof (intro allI impI)
        fix e assume "?next = Some e"
        then have "snd (trange tok) \<le> fst (trange e)" "e \<in> set stream"
          using find_SomeD[of _ stream e] by (auto simp: after)
        moreover from tok nonempty have "fst (trange tok) < snd (trange tok)" by auto
        ultimately show "e \<in> set stream \<and> fst (trange tok) < fst (trange e)" by auto
      qed
      have smaller: "(case ?next of None \<Rightarrow> 0
                  | Some e \<Rightarrow> Suc (length (filter (\<lambda>x. fst (trange e) < fst (trange x)) stream)))
            < (case currentToken of None \<Rightarrow> 0
                  | Some tok \<Rightarrow> Suc (length (filter (\<lambda>x. fst (trange tok) < fst (trange x)) stream)))"
      proof (cases ?next)
        case None
        with Some show ?thesis by simp
      next
        case (Some e)
        with nextprops have e: "e \<in> set stream" "fst (trange tok) < fst (trange e)" by auto
        have "length (filter (\<lambda>x. fst (trange e) < fst (trange x)) stream)
                < length (filter (\<lambda>x. fst (trange tok) < fst (trange x)) stream)"
          by (rule filter_length_less[where y = e]) (use e in auto)
        with Some \<open>currentToken = Some tok\<close> show ?thesis by simp
      qed
      have "\<exists>r. trailing_loop this node ?next (acc @ [tok]) = Some r \<and>
                set (acc @ [tok]) \<subseteq> set r"
        by (rule less.hyps[OF smaller]) (use nextprops in auto)
      with unfold show ?thesis by auto
    qed
  qed
qed

text \<open>
  The nodes of C8: an empty block statement, class body, object expression or array
  expression, or a switch statement without cases.
\<close>

definition emptyByConstruction :: "node \<Rightarrow> bool" where
  "emptyByConstruction node =
     ((ntype node = ''BlockStatement'' \<or> ntype node = ''ClassBody'') \<and>
        map_of (nfields node) ''body'' = Some [] \<or>
      ntype node = ''ObjectExpression'' \<and> map_of (nfields node) ''properties'' = Some [] \<or>
      ntype node = ''ArrayExpression'' \<and> map_of (nfields node) ''elements'' = Some [] \<or>
      ntype node = ''SwitchStatement'' \<and> map_of (nfields node) ''cases'' = Some [])"

lemma onlyComments_empty: "emptyByConstruction node \<Longrightarrow> onlyComments node = Inr True"
  by (auto simp: emptyByConstruction_def onlyComments_def lengthIsZero_def field_def
           split: option.splits)

lemma getComments_uncached:
  assumes nonempty: "\<forall>t\<in>set (tokensAndComments (SourceCode dvk cfg)). fst (trange t) < snd (trange t)"
    and nonroot: "ntype node \<noteq> ''Program''"
    and empty: "emptyByConstruction node"
    and miss: "commentCache node = None"
  shows "\<exists>r. getComments (SourceCode dvk cfg) commentCache node =
                Some (Inr r, commentCache(node \<mapsto> r)) \<and>
             (\<forall>t\<in>set (tokensAndComments (SourceCode dvk cfg)).
                isCommentToken t \<and> nstart node < tstart t \<and> tend t < nend node \<longrightarrow>
                t \<in> set (trailing r) \<and> t \<notin> set (leading r))"
proof -
  let ?sc = "SourceCode dvk cfg"
  let ?stream = "tokensAndComments ?sc"
  let ?inside = "getTokens ?sc (ANode node) True isCommentToken"
  have first: "\<forall>tok. getTokenBefore ?sc (ANode node) True = Some tok \<longrightarrow>
                 tok \<in> set ?stream \<and> snd (trange tok) \<le> nstart node"
    using find_SomeD[of "\<lambda>t. snd (trange t) \<le> fst (rangeOf (ANode node))" "rev ?stream"]
    by (auto simp: SourceCode_navigation nstart_def)
  from leading_loop_result[of ?sc ?stream "getTokenBefore ?sc (ANode node) True"
        "nstart node" "[]" node, OF SourceCode_navigation(2) nonempty first]
  obtain lead where lead: "leading_loop ?sc node (getTokenBefore ?sc (ANode node) True) [] = Some lead"
    "\<forall>t\<in>set lead. snd (trange t) \<le> nstart node" by auto
  have firstAfter: "\<forall>tok. getTokenAfter ?sc (ANode node) True = Some tok \<longrightarrow> tok \<in> set ?stream"
    using find_SomeD[of "\<lambda>t. snd (rangeOf (ANode node)) \<le> fst (trange t)" ?stream]
    by (auto simp: SourceCode_navigation)
  from trailing_loop_result[of ?sc ?stream "getTokenAfter ?sc (ANode node) True" node ?inside,
        OF SourceCode_navigation(3) nonempty firstAfter]
  obtain trail where trail:
    "trailing_loop ?sc node (getTokenAfter ?sc (ANode node) True) ?inside = Some trail"
    "set ?inside \<subseteq> set trail" by auto
  let ?r = "\<lparr>leading = rev lead, trailing = trail\<rparr>"
  have res: "getComments ?sc commentCache node = Some (Inr ?r, commentCache(node \<mapsto> ?r))"
    using nonroot miss lead(1) trail(1) onlyComments_empty[OF empty]
    by (simp add: getComments_def Let_def)
  have "t \<in> set (trailing ?r) \<and> t \<notin> set (leading ?r)"
    if t: "t \<in> set ?stream" "isCommentToken t" "nstart node < tstart t" "tend t < nend node" for t
  proof
    from t have "t \<in> set ?inside"
      by (simp add: SourceCode_navigation insideRange_def nstart_def nend_def tstart_def tend_def)
    with trail(2) show "t \<in> set (trailing ?r)" by auto
    from t(1) nonempty have "fst (trange t) < snd (trange t)" by auto
    with t(3) have "\<not> snd (trange t) \<le> nstart node" by (simp add: tstart_def)
    with lead(2) show "t \<notin> set (leading ?r)" by auto
  qed
  with res show ?thesis by blast
qed

lemma getComments_cache_independent:
  "commentCache node = None \<Longrightarrow>
     map_option fst (getComments this commentCache node) =
     map_option fst (getComments this Map.empty node)"
  by (auto simp: getComments_def Let_def split: option.splits sum.splits)


text \<open>
  C8: for a source whose tokens and comments have non-empty ranges, and a node other than
  the Program that is empty by construction, \<open>getComments\<close> returns, and every comment
  of the stream strictly inside the node's range is in \<open>trailing\<close> and not in
  \<open>leading\<close>; a cache that holds only results of \<open>getComments\<close> stays so.
\<close>

theorem C8_comments_inside_empty_node:
  assumes nonempty:
      "\<forall>t\<in>set (tokensAndComments (SourceCode dvk cfg)). fst (trange t) < snd (trange t)"
    and nonroot: "ntype node \<noteq> ''Program''"
    and empty: "emptyByConstruction node"
    and cache: "\<forall>n r. commentCache n = Some r \<longrightarrow>
                  map_option fst (getComments (SourceCode dvk cfg) Map.empty n) = Some (Inr r)"
  shows "\<exists>r c. getComments (SourceCode dvk cfg) commentCache node = Some (Inr r, c) \<and>
           (\<forall>t\<in>set (tokensAndComments (SourceCode dvk cfg)).
              isCommentToken t \<and> nstart node < tstart t \<and> tend t < nend node \<longrightarrow>
              t \<in> set (trailing r) \<and> t \<notin> set (leading r)) \<and>
           (\<forall>n r'. c n = Some r' \<longrightarrow>
              map_option fst (getComments (SourceCode dvk cfg) Map.empty n) = Some (Inr r'))"
proof -
  let ?sc = "SourceCode dvk cfg"
  from getComments_uncached[where commentCache = Map.empty, OF nonempty nonroot empty]
  obtain r0 where r0: "getComments ?sc Map.empty node = Some (Inr r0, [node \<mapsto> r0])"
    and inside: "\<forall>t\<in>set (tokensAndComments ?sc).
              isCommentToken t \<and> nstart node < tstart t \<and> tend t < nend node \<longrightarrow>
              t \<in> set (trailing r0) \<and> t \<notin> set (leading r0)"
    by auto
  show ?thesis
  proof (cases "commentCache node")
    case None
    from getComments_uncached[where commentCache = commentCache, OF nonempty nonroot empty None]
    obtain r where r: "getComments ?sc commentCache node = Some (Inr r, commentCache(node \<mapsto> r))"
      by auto
    from getComments_cache_independent[where commentCache = commentCache and this = ?sc, OF None]
      r r0 have "r = r0" by simp
    with r r0 inside cache show ?thesis by auto
  next
    case (Some cached)
    with cache have "map_option fst (getComments ?sc Map.empty node) = Some (Inr cached)"
      by blast
    with r0 have "cached = r0" by simp
    with Some have "getComments ?sc commentCache node = Some (Inr r0, commentCache)"
      by (simp add: getComments_def)
    with inside cache show ?thesis by auto
  qed
qed


text \<open>The example of the spec: the empty block \<open>{ /*c*/ }\<close>.\<close>

definition exampleB_text :: jsstring where
  "exampleB_text = [0x7B, 0x20, 0x2F, 0x2A, 0x63, 0x2A, 0x2F, 0x20, 0x7D]"

definition exampleB_block :: node where
  "exampleB_block =
     Node ''BlockStatement'' (0, 9) (Some (Node ''Program'' (0, 9) None [] [] []))
       [(''body'', [])] [] []"

definition exampleB_ast :: node where
  "exampleB_ast =
     Node ''Program'' (0, 9) None [(''body'', [Some exampleB_block])]
       [\<lparr>ttype = ''Punctuator'', tvalue = [0x7B], trange = (0, 1)\<rparr>,
        \<lparr>ttype = ''Punctuator'', tvalue = [0x7D], trange = (8, 9)\<rparr>]
       [\<lparr>ttype = ''Block'', tvalue = [0x63], trange = (2, 7)\<rparr>]"

definition exampleB :: source_code where
  "exampleB = SourceCode exampleKeys
     \<lparr>cfg_text = exampleB_text, cfg_ast = exampleB_ast,
      cfg_scopeManager = None, cfg_visitorKeys = None\<rparr>"

lemma exampleB_stream:
  "tokensAndComments exampleB =
     [\<lparr>ttype = ''Punctuator'', tvalue = [0x7B], trange = (0, 1)\<rparr>,
      \<lparr>ttype = ''Block'', tvalue = [0x63], trange = (2, 7)\<rparr>,
      \<lparr>ttype = ''Punctuator'', tvalue = [0x7D], trange = (8, 9)\<rparr>]"
  by (simp add: exampleB_def SourceCode_token_store SourceCode_ast SourceCode_text
        exampleB_ast_def exampleB_text_def retagShebang_def shebangPattern_match_def
        sortedMerge_merge_lists)

lemma exampleB_store:
  "getTokens exampleB x True flt =
     filter (\<lambda>t. insideRange (rangeOf x) t \<and> flt t) (tokensAndComments exampleB)"
  "getTokenBefore exampleB x True =
     List.find (\<lambda>t. snd (trange t) \<le> fst (rangeOf x)) (rev (tokensAndComments exampleB))"
  "getTokenAfter exampleB x True =
     List.find (\<lambda>t. snd (rangeOf x) \<le> fst (trange t)) (tokensAndComments exampleB)"
  by (simp_all add: exampleB_def SourceCode_navigation)

lemma exampleB_getComments:
  "map_option fst (getComments exampleB Map.empty exampleB_block) =
     Some (Inr \<lparr>leading = [],
                trailing = [\<lparr>ttype = ''Block'', tvalue = [0x63], trange = (2, 7)\<rparr>]\<rparr>)"
  by (simp add: getComments_def exampleB_block_def onlyComments_def lengthIsZero_def
        exampleB_store exampleB_stream insideRange_def isCommentToken_def
        leading_loop.simps trailing_loop.simps Let_def)

theorem C8_comments_inside_empty_node_witness:
  "list_all (\<lambda>t. fst (trange t) < snd (trange t)) (tokensAndComments exampleB) \<and>
   ntype exampleB_block \<noteq> ''Program'' \<and> emptyByConstruction exampleB_block \<and>
   map_option fst (getComments exampleB Map.empty exampleB_block) =
     Some (Inr \<lparr>leading = [],
                trailing = [\<lparr>ttype = ''Block'', tvalue = [0x63], trange = (2, 7)\<rparr>]\<rparr>) \<and>
   isCommentToken \<lparr>ttype = ''Block'', tvalue = [0x63], trange = (2, 7)\<rparr> \<and>
   nstart exampleB_block < tstart \<lparr>ttype = ''Block'', tvalue = [0x63], trange = (2, 7)\<rparr> \<and>
   tend \<lparr>ttype = ''Block'', tvalue = [0x63], trange = (2, 7)\<rparr> < nend exampleB_block"
proof -
  have h1: "\<forall>t\<in>set (tokensAndComments exampleB). fst (trange t) < snd (trange t)"
    by (simp add: exampleB_stream)
  have h2: "ntype exampleB_block \<noteq> ''Program''" by (simp add: exampleB_block_def)
  have h3: "emptyByConstruction exampleB_block"
    by (simp add: emptyByConstruction_def exampleB_block_def)
  have h4: "\<forall>n r. Map.empty n = Some r \<longrightarrow>
              map_option fst (getComments exampleB Map.empty n) = Some (Inr r)"
    by simp
  from C8_comments_inside_empty_node[of exampleKeys
      "\<lparr>cfg_text = exampleB_text, cfg_ast = exampleB_ast,
        cfg_scopeManager = None, cfg_visitorKeys = None\<rparr>" exampleB_block Map.empty,
      folded exampleB_def, OF h1 h2 h3 h4] h1 h2 h3 exampleB_getComments
  show ?thesis
    by (simp add: isCommentToken_def nstart_def tstart_def tend_def nend_def exampleB_block_def
          list_all_iff)
qed

end
